theory Spec2Isabelle
  imports Main "HOL-Library.Sublist"
begin

section \<open>Data model\<close>

text \<open>
  The repository holds two generations of the same scanner:
  \<^verbatim>\<open>secrets_scanner.py\<close> (the older one, its functions carry the suffix \<open>_v1\<close> below
  where a name occurs in both files) and \<^verbatim>\<open>secrets_scanner2.py\<close> (the newer one,
  split into PatternManager, AllowlistManager, GitHistoryScanner and SecretsScanner).
  Both declare the same enumerations and the same Finding class; the older Finding has no
  \<open>description\<close> and no \<open>is_still_tracked\<close> attribute, which stay at their defaults there.
\<close>

datatype Severity = HIGH | MEDIUM | LOW

datatype RiskType =
  HARDCODED_SECRET | DATA_EXPOSURE_LOGS | DATA_EXPOSURE_RESPONSE | SENSITIVE_CONFIG

record Finding =
  file_path :: string
  line_number :: int
  line_content :: string
  pattern :: string
  severity :: Severity
  risk_type :: RiskType
  description :: string
  is_gitignored :: bool
  in_git_history :: bool
  is_still_tracked :: bool

text \<open>The only exception class the engine handles by name: Python's \<^verbatim>\<open>re.error\<close>.\<close>

datatype re_error = ReError

text \<open>
  A compiled pattern is used through \<^verbatim>\<open>compiled.search(line)\<close> only, so it is modelled
  by the truth value of that call.
\<close>

type_synonym matcher = "string \<Rightarrow> bool"

section \<open>Python string operations\<close>

text \<open>
  A string is a list of characters with code points below 256. On these \<^verbatim>\<open>str.lower\<close>
  maps \<open>A\<close> to \<open>Z\<close> and the capital letters of the range \<open>0xC0\<close> to \<open>0xDE\<close> (all of it but
  the multiplication sign \<open>0xD7\<close>) to the code point 32 above and leaves every other
  character; \<^verbatim>\<open>str.strip\<close> removes the characters that \<^verbatim>\<open>str.isspace\<close> accepts. Code
  points from 256 on are outside the model.
\<close>

definition lower_char :: "char \<Rightarrow> char" where
  "lower_char c =
     (case map_of
             (zip (''ABCDEFGHIJKLMNOPQRSTUVWXYZ'' @
                   [CHR 0xC0, CHR 0xC1, CHR 0xC2, CHR 0xC3, CHR 0xC4, CHR 0xC5, CHR 0xC6, CHR 0xC7,
                    CHR 0xC8, CHR 0xC9, CHR 0xCA, CHR 0xCB, CHR 0xCC, CHR 0xCD, CHR 0xCE, CHR 0xCF,
                    CHR 0xD0, CHR 0xD1, CHR 0xD2, CHR 0xD3, CHR 0xD4, CHR 0xD5, CHR 0xD6, CHR 0xD8,
                    CHR 0xD9, CHR 0xDA, CHR 0xDB, CHR 0xDC, CHR 0xDD, CHR 0xDE])
                  (''abcdefghijklmnopqrstuvwxyz'' @
                   [CHR 0xE0, CHR 0xE1, CHR 0xE2, CHR 0xE3, CHR 0xE4, CHR 0xE5, CHR 0xE6, CHR 0xE7,
                    CHR 0xE8, CHR 0xE9, CHR 0xEA, CHR 0xEB, CHR 0xEC, CHR 0xED, CHR 0xEE, CHR 0xEF,
                    CHR 0xF0, CHR 0xF1, CHR 0xF2, CHR 0xF3, CHR 0xF4, CHR 0xF5, CHR 0xF6, CHR 0xF8,
                    CHR 0xF9, CHR 0xFA, CHR 0xFB, CHR 0xFC, CHR 0xFD, CHR 0xFE])) c of
        Some d \<Rightarrow> d
      | None \<Rightarrow> c)"

definition lower :: "string \<Rightarrow> string" where
  "lower s = map lower_char s"

text \<open>\<^verbatim>\<open>t in s\<close> on strings: \<open>t\<close> occurs in \<open>s\<close> as a contiguous substring.\<close>

fun str_in :: "string \<Rightarrow> string \<Rightarrow> bool" where
  "str_in t [] = (t = [])"
| "str_in t (c # cs) = (prefix t (c # cs) \<or> str_in t cs)"

definition is_space :: "char \<Rightarrow> bool" where
  "is_space c =
     (c \<in> set [CHR 0x09, CHR 0x0A, CHR 0x0B, CHR 0x0C, CHR 0x0D,
                CHR 0x1C, CHR 0x1D, CHR 0x1E, CHR 0x1F, CHR 0x20, CHR 0x85, CHR 0xA0])"

definition strip :: "string \<Rightarrow> string" where
  "strip s = rev (dropWhile is_space (rev (dropWhile is_space s)))"

text \<open>\<^verbatim>\<open>str(n)\<close> for an integer: decimal digits, with a minus sign below zero.\<close>

fun str_nat :: "nat \<Rightarrow> string" where
  "str_nat n =
     (if n < 10 then [''0123456789'' ! n]
      else str_nat (n div 10) @ [''0123456789'' ! (n mod 10)])"

declare str_nat.simps [simp del]

definition str_int :: "int \<Rightarrow> string" where
  "str_int i = (if i < 0 then CHR ''-'' # str_nat (nat (- i)) else str_nat (nat i))"

text \<open>
  \<^verbatim>\<open>s.replace(old, new)\<close>: every non-overlapping occurrence, from the left. With an
  empty \<open>old\<close> Python puts \<open>new\<close> before every character and at the end.
\<close>

function py_replace :: "string \<Rightarrow> string \<Rightarrow> string \<Rightarrow> string" where
  "py_replace old new [] = (if old = [] then new else [])"
| "py_replace old new (c # cs) =
     (if old = [] then new @ c # py_replace old new cs
      else if prefix old (c # cs) then new @ py_replace old new (drop (length old) (c # cs))
      else c # py_replace old new cs)"
  by pat_completeness auto
termination
  by (relation "measure (\<lambda>(old, new, s). length s)") auto

text \<open>\<^verbatim>\<open>os.path.basename\<close> and the extension part of \<^verbatim>\<open>os.path.splitext\<close> (POSIX).\<close>

definition basename :: "string \<Rightarrow> string" where
  "basename p = rev (takeWhile (\<lambda>c. c \<noteq> CHR ''/'') (rev p))"

definition splitext_ext :: "string \<Rightarrow> string" where
  "splitext_ext p =
     (let b = basename p in
      if CHR ''.'' \<in> set b then
        (let ext = CHR ''.'' # rev (takeWhile (\<lambda>c. c \<noteq> CHR ''.'') (rev b));
             stem = take (length b - length ext) b
         in if list_ex (\<lambda>c. c \<noteq> CHR ''.'') stem then ext else [])
      else [])"

section \<open>Finding fingerprints\<close>

text \<open>
  \<^verbatim>\<open>self.fingerprint = f"{file_path}:{line_number}"\<close> and
  \<^verbatim>\<open>self.full_fingerprint = f"{file_path}:{line_number}:{pattern}"\<close>, set once in the
  constructor; nothing assigns \<open>file_path\<close>, \<open>line_number\<close> or \<open>pattern\<close> afterwards.
\<close>

definition fingerprint :: "Finding \<Rightarrow> string" where
  "fingerprint f = file_path f @ '':'' @ str_int (line_number f)"

definition full_fingerprint :: "Finding \<Rightarrow> string" where
  "full_fingerprint f = file_path f @ '':'' @ str_int (line_number f) @ '':'' @ pattern f"

section \<open>Risk type and severity\<close>

text \<open>\<^verbatim>\<open>SecretsScanner._determine_risk_type\<close> of secrets_scanner2.py.\<close>

definition determine_risk_type :: "string \<Rightarrow> RiskType" where
  "determine_risk_type line =
     (if list_ex (\<lambda>t. str_in t (lower line)) [''console.'', ''print'', ''echo'', ''log.'']
        then DATA_EXPOSURE_LOGS
      else if list_ex (\<lambda>t. str_in t (lower line)) [''return'', ''res.'', ''response'']
        then DATA_EXPOSURE_RESPONSE
      else if str_in ''['' line \<and> str_in '']'' line then SENSITIVE_CONFIG
      else HARDCODED_SECRET)"

text \<open>
  The risk-type prologue of \<^verbatim>\<open>_determine_severity_and_risk\<close> in secrets_scanner.py,
  which has no helper of its own for it.
\<close>

definition determine_risk_type_v1 :: "string \<Rightarrow> RiskType" where
  "determine_risk_type_v1 line =
     (if list_ex (\<lambda>t. str_in t (lower line)) [''console.'', ''print'', ''echo'']
        then DATA_EXPOSURE_LOGS
      else if list_ex (\<lambda>t. str_in t (lower line)) [''return'', ''res.'', ''response'']
        then DATA_EXPOSURE_RESPONSE
      else if str_in ''['' line \<and> str_in '']'' line then SENSITIVE_CONFIG
      else HARDCODED_SECRET)"

text \<open>
  The two literal expressions the classifier passes to \<^verbatim>\<open>re.search\<close>:
  \<^verbatim>\<open>r'(=|:)\s*["\'][0-9a-zA-Z._=/-]{16,}["\']'\<close> and \<^verbatim>\<open>r'(password|pass|pwd)\s*='\<close>.
  Character 0x5C is the backslash, 0x22 the double quote, 0x27 the single quote.
\<close>

definition generic_value_regex :: string where
  "generic_value_regex =
     ''(=|:)'' @ [CHR 0x5C] @ ''s*['' @ [CHR 0x22, CHR 0x5C, CHR 0x27] @
     ''][0-9a-zA-Z._=/-]{16,}['' @ [CHR 0x22, CHR 0x5C, CHR 0x27] @ '']''"

definition password_assign_regex :: string where
  "password_assign_regex = ''(password|pass|pwd)'' @ [CHR 0x5C] @ ''s*=''"

definition sensitive_terms :: "string list" where
  "sensitive_terms =
     [''client_id'', ''client_secret'', ''api_key'', ''password'', ''token'', ''access_key'',
      ''DATABASE_URL'', ''POSTGRES_PASSWORD'', ''secret'', ''key'', ''auth'', ''credential'']"

definition config_extensions :: "string list" where
  "config_extensions =
     [''.ini'', ''.conf'', ''.env'', ''.cfg'', ''.yaml'', ''.yml'', ''.properties'', ''.tfvars'']"

section \<open>Pattern groups and their compilation\<close>

text \<open>
  The attributes that \<^verbatim>\<open>_load_default_patterns\<close> / \<^verbatim>\<open>_load_patterns\<close> (or a pattern
  file) set, and the four lists that \<^verbatim>\<open>_compile_patterns\<close> fills.
\<close>

record PatternConfig =
  mode :: string
  loose_patterns :: "string list"
  additional_patterns :: "string list"
  strict_patterns :: "string list"
  override_patterns :: "string list"
  config_patterns :: "string list"
  exclusion_patterns :: "string list"
  extensions :: "string list"
  config_files :: "string list"
  exclude_dirs :: "string list"

record Compiled =
  compiled_patterns :: "(matcher \<times> string) list"
  compiled_overrides :: "(matcher \<times> string) list"
  compiled_config_patterns :: "(matcher \<times> string) list"
  compiled_exclusions :: "matcher list"

text \<open>
  \<^verbatim>\<open>re.compile(pattern, re.IGNORECASE)\<close> belongs to Python's library and is a parameter
  \<open>re_compile\<close>: it returns the compiled pattern or raises. What it raises is not always
  \<^verbatim>\<open>re.error\<close>: a repetition count beyond the engine's limit, as in
  \<^verbatim>\<open>a{4294967296}\<close>, raises \<^verbatim>\<open>OverflowError\<close>, and a pattern nested too deeply
  raises \<^verbatim>\<open>RecursionError\<close>. Neither is a subclass of \<^verbatim>\<open>re.error\<close>.
\<close>

datatype py_exception = ReErr re_error | OverflowError | RecursionError

text \<open>
  Every statement of \<^verbatim>\<open>_compile_patterns\<close> is a step that returns the grown list or the
  exception in flight. The \<^verbatim>\<open>except re.error\<close> clauses are the \<open>ReErr\<close> branches; an
  exception of another class passes them and leaves the loop and the method. The function
  is the same text in both files.
\<close>

definition simplified_pattern :: "string \<Rightarrow> string" where
  "simplified_pattern pat =
     py_replace ''{10,}'' ''{10,100}''
       (py_replace ([CHR 0x5C] @ ''s+'') ([CHR 0x5C] @ ''s*'') pat)"

definition compile_main_step ::
  "(string \<Rightarrow> py_exception + matcher) \<Rightarrow> (matcher \<times> string) list \<Rightarrow> string \<Rightarrow>
   py_exception + (matcher \<times> string) list" where
  "compile_main_step re_compile acc pat =
     (case re_compile pat of
        Inr m \<Rightarrow> Inr (acc @ [(m, pat)])
      | Inl x \<Rightarrow>
          (case x of
             ReErr e \<Rightarrow>
               (case re_compile (simplified_pattern pat) of
                  Inr m \<Rightarrow> Inr (acc @ [(m, pat)])
                | Inl y \<Rightarrow>
                    (case y of
                       ReErr e' \<Rightarrow> Inr acc
                     | OverflowError \<Rightarrow> Inl y
                     | RecursionError \<Rightarrow> Inl y))
           | OverflowError \<Rightarrow> Inl x
           | RecursionError \<Rightarrow> Inl x))"

definition compile_plain_step ::
  "(string \<Rightarrow> py_exception + matcher) \<Rightarrow> (matcher \<times> string) list \<Rightarrow> string \<Rightarrow>
   py_exception + (matcher \<times> string) list" where
  "compile_plain_step re_compile acc pat =
     (case re_compile pat of
        Inr m \<Rightarrow> Inr (acc @ [(m, pat)])
      | Inl x \<Rightarrow>
          (case x of
             ReErr e \<Rightarrow> Inr acc
           | OverflowError \<Rightarrow> Inl x
           | RecursionError \<Rightarrow> Inl x))"

definition compile_exclusion_step ::
  "(string \<Rightarrow> py_exception + matcher) \<Rightarrow> matcher list \<Rightarrow> string \<Rightarrow>
   py_exception + matcher list" where
  "compile_exclusion_step re_compile acc pat =
     (case re_compile pat of
        Inr m \<Rightarrow> Inr (acc @ [m])
      | Inl x \<Rightarrow>
          (case x of
             ReErr e \<Rightarrow> Inr acc
           | OverflowError \<Rightarrow> Inl x
           | RecursionError \<Rightarrow> Inl x))"

text \<open>A \<^verbatim>\<open>for\<close> loop whose body may raise: the first exception ends the loop.\<close>

fun for_each :: "('s \<Rightarrow> 'a \<Rightarrow> 'e + 's) \<Rightarrow> 's \<Rightarrow> 'a list \<Rightarrow> 'e + 's" where
  "for_each body acc [] = Inr acc"
| "for_each body acc (x # xs) =
     (case body acc x of Inl e \<Rightarrow> Inl e | Inr acc' \<Rightarrow> for_each body acc' xs)"

definition compile_patterns ::
  "(string \<Rightarrow> py_exception + matcher) \<Rightarrow> PatternConfig \<Rightarrow> py_exception + Compiled" where
  "compile_patterns re_compile cfg =
     (let patterns_to_use =
            (if mode cfg = ''strict'' then strict_patterns cfg
             else loose_patterns cfg @ additional_patterns cfg)
      in case for_each (compile_main_step re_compile) [] patterns_to_use of
           Inl e \<Rightarrow> Inl e
         | Inr ps \<Rightarrow>
        (case for_each (compile_plain_step re_compile) [] (override_patterns cfg) of
           Inl e \<Rightarrow> Inl e
         | Inr os \<Rightarrow>
        (case for_each (compile_plain_step re_compile) [] (config_patterns cfg) of
           Inl e \<Rightarrow> Inl e
         | Inr cs \<Rightarrow>
        (case for_each (compile_exclusion_step re_compile) [] (exclusion_patterns cfg) of
           Inl e \<Rightarrow> Inl e
         | Inr es \<Rightarrow>
             Inr \<lparr>compiled_patterns = ps, compiled_overrides = os,
                  compiled_config_patterns = cs, compiled_exclusions = es\<rparr>))))"

text \<open>
  \<^verbatim>\<open>PatternManager.is_config_file\<close>, \<^verbatim>\<open>should_scan_file\<close> and
  \<^verbatim>\<open>should_exclude_line\<close> (secrets_scanner2.py); \<^verbatim>\<open>fnmatch.fnmatch\<close> is a parameter.
  \<^verbatim>\<open>SecretsScanner._should_exclude\<close> of secrets_scanner.py is the same loop.
\<close>

definition is_config_file :: "(string \<Rightarrow> string \<Rightarrow> bool) \<Rightarrow> PatternConfig \<Rightarrow> string \<Rightarrow> bool" where
  "is_config_file fnmatch cfg path =
     (let file_name = basename path; file_ext = lower (splitext_ext path)
      in file_ext \<in> set config_extensions \<or>
         list_ex (\<lambda>pat. fnmatch file_name pat) (config_files cfg))"

definition should_scan_file ::
  "(string \<Rightarrow> string \<Rightarrow> bool) \<Rightarrow> PatternConfig \<Rightarrow> string \<Rightarrow> bool" where
  "should_scan_file fnmatch cfg path =
     (if list_ex (\<lambda>pat. fnmatch path pat) (exclude_dirs cfg) then False
      else list_ex (\<lambda>ext. fnmatch (basename path) ext) (extensions cfg))"

definition should_exclude_line :: "Compiled \<Rightarrow> string \<Rightarrow> bool" where
  "should_exclude_line pm line = list_ex (\<lambda>m. m line) (compiled_exclusions pm)"

definition should_exclude :: "Compiled \<Rightarrow> string \<Rightarrow> bool" where
  "should_exclude pm line = list_ex (\<lambda>m. m line) (compiled_exclusions pm)"

text \<open>
  \<^verbatim>\<open>SecretsScanner._determine_severity_and_risk\<close> of secrets_scanner2.py. The parameter
  \<open>re_search p s\<close> stands for \<^verbatim>\<open>re.search(p, s)\<close> finding a match.
\<close>

definition determine_severity_and_risk ::
  "(string \<Rightarrow> string \<Rightarrow> bool) \<Rightarrow> (string \<Rightarrow> string \<Rightarrow> bool) \<Rightarrow> PatternConfig \<Rightarrow> Compiled \<Rightarrow>
   string \<Rightarrow> string \<Rightarrow> string \<Rightarrow> Severity \<times> RiskType" where
  "determine_severity_and_risk re_search fnmatch cfg pm path line matching_pattern =
     (let risk = determine_risk_type line; low = lower line in
      if list_ex (\<lambda>(m, p). m line) (compiled_overrides pm) then (HIGH, risk)
      else if is_config_file fnmatch cfg path \<and>
              list_ex (\<lambda>t. str_in (lower t) low \<and> str_in ''='' line) sensitive_terms
        then (HIGH, risk)
      else if (str_in ''console.'' low \<or> str_in ''print'' low \<or> str_in ''echo'' low \<or>
               str_in ''log.'' low) \<and>
              list_ex (\<lambda>t. str_in t low) [''pass'', ''secret'', ''token'', ''api'', ''cred'']
        then (HIGH, risk)
      else if re_search generic_value_regex line then (MEDIUM, risk)
      else if list_ex (\<lambda>db. str_in db low) [''postgres'', ''sql'', ''mysql'', ''mongo''] \<and>
              list_ex (\<lambda>t. str_in t low) [''password'', ''pass'', ''pwd'']
        then (HIGH, risk)
      else if re_search password_assign_regex low \<and>
              list_ex (\<lambda>c. str_in [c] line) ''!@#$%^&*''
        then (HIGH, risk)
      else if str_in ''client_id'' low \<or> str_in ''client_secret'' low then (HIGH, risk)
      else (LOW, risk))"

text \<open>
  The same method in secrets_scanner.py: the configuration-file test is written inline and
  the logging lexicons have three entries.
\<close>

definition is_config_file_v1 :: "string \<Rightarrow> bool" where
  "is_config_file_v1 path =
     (let file_ext = lower (splitext_ext path); file_name = basename path
      in file_ext \<in> set config_extensions \<or> file_name = ''.env'' \<or> prefix ''.env.'' file_name)"

definition determine_severity_and_risk_v1 ::
  "(string \<Rightarrow> string \<Rightarrow> bool) \<Rightarrow> Compiled \<Rightarrow> string \<Rightarrow> string \<Rightarrow> string \<Rightarrow>
   Severity \<times> RiskType" where
  "determine_severity_and_risk_v1 re_search pm path line matching_pattern =
     (let risk = determine_risk_type_v1 line; low = lower line in
      if list_ex (\<lambda>(m, p). m line) (compiled_overrides pm) then (HIGH, risk)
      else if is_config_file_v1 path \<and>
              list_ex (\<lambda>t. str_in (lower t) low \<and> str_in ''='' line) sensitive_terms
        then (HIGH, risk)
      else if (str_in ''console.'' low \<or> str_in ''print'' low \<or> str_in ''echo'' low) \<and>
              list_ex (\<lambda>t. str_in t low) [''pass'', ''secret'', ''token'', ''api'', ''cred'']
        then (HIGH, risk)
      else if re_search generic_value_regex line then (MEDIUM, risk)
      else if list_ex (\<lambda>db. str_in db low) [''postgres'', ''sql'', ''mysql'', ''mongo''] \<and>
              list_ex (\<lambda>t. str_in t low) [''password'', ''pass'', ''pwd'']
        then (HIGH, risk)
      else if re_search password_assign_regex low \<and>
              list_ex (\<lambda>c. str_in [c] line) ''!@#$%^&*''
        then (HIGH, risk)
      else if str_in ''client_id'' low \<or> str_in ''client_secret'' low then (HIGH, risk)
      else (LOW, risk))"

section \<open>Allowlist matching\<close>

text \<open>
  \<^verbatim>\<open>re.match(regex_pattern, s)\<close> with a pattern string compiles the pattern at the call; it
  is the parameter \<open>re_match\<close>, which returns whether the pattern matches at the start of
  \<open>s\<close> or raises. Neither matcher has a \<^verbatim>\<open>try\<close> of its own, so whatever \<^verbatim>\<open>re.match\<close>
  raises leaves the matcher: the exceptions are of any type \<open>'e\<close>.

  \<^verbatim>\<open>AllowlistManager.is_allowlisted\<close> (secrets_scanner2.py): the allowlist is a dict, of
  which only the keys are read; it is the list of its keys in insertion order.
\<close>

fun allowlist_patterns ::
  "(string \<Rightarrow> string \<Rightarrow> 'e + bool) \<Rightarrow> string list \<Rightarrow> Finding \<Rightarrow> 'e + bool" where
  "allowlist_patterns re_match [] finding = Inr False"
| "allowlist_patterns re_match (pat # rest) finding =
     (if str_in ''*'' pat then
        (let regex_pattern = py_replace ''*'' ''.*'' pat in
         case re_match regex_pattern (fingerprint finding) of
           Inl e \<Rightarrow> Inl e
         | Inr True \<Rightarrow> Inr True
         | Inr False \<Rightarrow>
             (case re_match regex_pattern (full_fingerprint finding) of
                Inl e \<Rightarrow> Inl e
              | Inr True \<Rightarrow> Inr True
              | Inr False \<Rightarrow> allowlist_patterns re_match rest finding))
      else allowlist_patterns re_match rest finding)"

definition is_allowlisted ::
  "(string \<Rightarrow> string \<Rightarrow> 'e + bool) \<Rightarrow> string list \<Rightarrow> Finding \<Rightarrow> 'e + bool" where
  "is_allowlisted re_match allowlist_keys finding =
     (if fingerprint finding \<in> set allowlist_keys then Inr True
      else if full_fingerprint finding \<in> set allowlist_keys then Inr True
      else allowlist_patterns re_match allowlist_keys finding)"

text \<open>\<^verbatim>\<open>SecretsScanner._is_acceptable_finding\<close> (secrets_scanner.py), over a list of lines.\<close>

fun is_acceptable_finding ::
  "(string \<Rightarrow> string \<Rightarrow> 'e + bool) \<Rightarrow> string list \<Rightarrow> Finding \<Rightarrow> 'e + bool" where
  "is_acceptable_finding re_match [] finding = Inr False"
| "is_acceptable_finding re_match (acceptable # rest) finding =
     (if full_fingerprint finding = acceptable then Inr True
      else if str_in ''*'' acceptable then
        (let regex_pattern = py_replace ''*'' ''.*'' acceptable in
         case re_match regex_pattern (full_fingerprint finding) of
           Inl e \<Rightarrow> Inl e
         | Inr True \<Rightarrow> Inr True
         | Inr False \<Rightarrow> is_acceptable_finding re_match rest finding)
      else is_acceptable_finding re_match rest finding)"

subsection \<open>A model of \<^verbatim>\<open>re.match\<close> for converted glob entries\<close>

text \<open>
  Modelled from the documentation of Python's \<^verbatim>\<open>re\<close> module, which is not part of the
  repository: the expressions built from ordinary characters, \<open>.\<close> (any character but a
  newline) and a postfix \<open>*\<close>, matched at the start of the string. A \<open>*\<close> with nothing to
  repeat and a \<open>[\<close> that no \<open>]\<close> closes raise \<^verbatim>\<open>re.error\<close>. Every other special
  character is outside this model: \<open>re_parse\<close> answers \<open>None\<close> for it, and there the answer
  of \<open>py_re_match\<close> says nothing about \<^verbatim>\<open>re.match\<close>. It is used at expressions of the
  fragment only.
\<close>

datatype re_atom = Lit char | AnyChar

datatype re_item = One re_atom | Star re_atom

definition re_special :: "char \<Rightarrow> bool" where
  "re_special c = (c \<in> set ''^$+?{}[]|()'' \<or> c = CHR 0x5C)"

fun re_parse :: "string \<Rightarrow> (re_error + re_item list) option" where
  "re_parse [] = Some (Inr [])"
| "re_parse (c # cs) =
     (if c = CHR ''*'' then Some (Inl ReError)
      else if c = CHR ''['' \<and> CHR '']'' \<notin> set cs then Some (Inl ReError)
      else if re_special c then None
      else
        (let a = (if c = CHR ''.'' then AnyChar else Lit c) in
         case cs of
           [] \<Rightarrow> Some (Inr [One a])
         | d # ds \<Rightarrow>
             if d = CHR ''*'' then
               (case re_parse ds of
                  None \<Rightarrow> None
                | Some (Inl e) \<Rightarrow> Some (Inl e)
                | Some (Inr items) \<Rightarrow> Some (Inr (Star a # items)))
             else
               (case re_parse cs of
                  None \<Rightarrow> None
                | Some (Inl e) \<Rightarrow> Some (Inl e)
                | Some (Inr items) \<Rightarrow> Some (Inr (One a # items)))))"

fun atom_matches :: "re_atom \<Rightarrow> char \<Rightarrow> bool" where
  "atom_matches (Lit c) d = (c = d)"
| "atom_matches AnyChar d = (d \<noteq> CHR 0x0A)"

fun items_match :: "re_item list \<Rightarrow> string \<Rightarrow> bool" where
  "items_match [] s = True"
| "items_match (One a # items) [] = False"
| "items_match (One a # items) (c # cs) = (atom_matches a c \<and> items_match items cs)"
| "items_match (Star a # items) [] = items_match items []"
| "items_match (Star a # items) (c # cs) =
     (items_match items (c # cs) \<or> (atom_matches a c \<and> items_match (Star a # items) cs))"

definition py_re_match :: "string \<Rightarrow> string \<Rightarrow> re_error + bool" where
  "py_re_match regex s =
     (case re_parse regex of
        Some (Inr items) \<Rightarrow> Inr (items_match items s)
      | Some (Inl e) \<Rightarrow> Inl e
      | None \<Rightarrow> Inl ReError)"

section \<open>Scanning\<close>

text \<open>
  The attributes of a scanner that the scanning code reads. secrets_scanner2.py keeps the
  allowlist in its AllowlistManager (\<open>allowlist\<close>, the dict's keys) and the patterns in its
  PatternManager; secrets_scanner.py keeps \<open>acceptable_findings\<close> and the pattern lists on
  the scanner itself. The outside world (file contents, the answers of git, the secrets
  that the detect-secrets library reports, the directory walk) is a record of its own.
\<close>

record Scanner =
  pattern_config :: PatternConfig
  pattern_manager :: Compiled
  allowlist :: "string list"
  acceptable_findings :: "string list"
  high_only :: bool
  is_git_repo :: bool
  scan_gitignored :: bool
  use_detect_secrets :: bool
  check_git_history :: bool
  deep_scan :: bool

record World =
  open_file :: "string \<Rightarrow> string list option"
  walked_files :: "string list"
  is_file_gitignored :: "string \<Rightarrow> bool"
  is_file_in_git_history :: "string \<Rightarrow> bool"
  historical_files :: "(string \<times> bool) list"
  detected_secrets :: "(string \<times> int \<times> string) list"
  sampled_blobs :: "(string \<times> string list) list"

text \<open>The library functions that the scanning code calls, passed along together.\<close>

record PyLib =
  lib_re_search :: "string \<Rightarrow> string \<Rightarrow> bool"
  lib_re_match :: "string \<Rightarrow> string \<Rightarrow> re_error + bool"
  lib_fnmatch :: "string \<Rightarrow> string \<Rightarrow> bool"

text \<open>
  A loop over a list whose body appends to \<open>findings\<close> and may raise: the state comes back
  with the exception in flight, if any, since the enclosing \<^verbatim>\<open>except Exception\<close> keeps
  what was appended before.
\<close>

fun for_each_st ::
  "('s \<Rightarrow> 'a \<Rightarrow> 's \<times> re_error option) \<Rightarrow> 's \<Rightarrow> 'a list \<Rightarrow> 's \<times> re_error option" where
  "for_each_st body st [] = (st, None)"
| "for_each_st body st (x # xs) =
     (case body st x of
        (st', Some e) \<Rightarrow> (st', Some e)
      | (st', None) \<Rightarrow> for_each_st body st' xs)"

text \<open>\<^verbatim>\<open>enumerate(f, 1)\<close>.\<close>

definition enumerate1 :: "'a list \<Rightarrow> (int \<times> 'a) list" where
  "enumerate1 xs = zip (map int [1..<Suc (length xs)]) xs"

subsection \<open>secrets_scanner2.py: \<^verbatim>\<open>SecretsScanner.scan_file\<close>\<close>

text \<open>
  The tail that the three pattern loops of \<^verbatim>\<open>scan_file\<close> share: the allowlist gate, the
  high-only gate, the append.
\<close>

definition gate :: "PyLib \<Rightarrow> Scanner \<Rightarrow> Finding list \<Rightarrow> Finding \<Rightarrow> Finding list \<times> re_error option" where
  "gate lib sc findings finding =
     (case is_allowlisted (lib_re_match lib) (allowlist sc) finding of
        Inl e \<Rightarrow> (findings, Some e)
      | Inr allowed \<Rightarrow>
          if allowed then (findings, None)
          else if high_only sc \<and> severity finding \<noteq> HIGH then (findings, None)
          else (findings @ [finding], None))"

definition override_step ::
  "PyLib \<Rightarrow> Scanner \<Rightarrow> string \<Rightarrow> int \<Rightarrow> string \<Rightarrow> Finding list \<Rightarrow> matcher \<times> string \<Rightarrow>
   Finding list \<times> re_error option" where
  "override_step lib sc path i line findings cp =
     (case cp of (compiled_pattern, pattern_str) \<Rightarrow>
        if compiled_pattern line then
          (case determine_severity_and_risk (lib_re_search lib) (lib_fnmatch lib)
                  (pattern_config sc) (pattern_manager sc) path line pattern_str of
             (sev, risk) \<Rightarrow>
               gate lib sc findings
                 \<lparr>file_path = path, line_number = i, line_content = strip line,
                  pattern = pattern_str, severity = sev, risk_type = risk,
                  description = ''Override pattern: '' @ pattern_str,
                  is_gitignored = False, in_git_history = False, is_still_tracked = False\<rparr>)
        else (findings, None))"

definition pattern_step ::
  "PyLib \<Rightarrow> Scanner \<Rightarrow> string \<Rightarrow> int \<Rightarrow> string \<Rightarrow> Finding list \<Rightarrow> matcher \<times> string \<Rightarrow>
   Finding list \<times> re_error option" where
  "pattern_step lib sc path i line findings cp =
     (case cp of (compiled_pattern, pattern_str) \<Rightarrow>
        if compiled_pattern line then
          (case determine_severity_and_risk (lib_re_search lib) (lib_fnmatch lib)
                  (pattern_config sc) (pattern_manager sc) path line pattern_str of
             (sev, risk) \<Rightarrow>
               gate lib sc findings
                 \<lparr>file_path = path, line_number = i, line_content = strip line,
                  pattern = pattern_str, severity = sev, risk_type = risk,
                  description = [],
                  is_gitignored = False, in_git_history = False, is_still_tracked = False\<rparr>)
        else (findings, None))"

definition config_step ::
  "PyLib \<Rightarrow> Scanner \<Rightarrow> string \<Rightarrow> int \<Rightarrow> string \<Rightarrow> Finding list \<Rightarrow> matcher \<times> string \<Rightarrow>
   Finding list \<times> re_error option" where
  "config_step lib sc path i line findings cp =
     (case cp of (compiled_pattern, pattern_str) \<Rightarrow>
        if compiled_pattern line then
          gate lib sc findings
            \<lparr>file_path = path, line_number = i, line_content = strip line,
             pattern = pattern_str, severity = HIGH, risk_type = SENSITIVE_CONFIG,
             description = ''Sensitive config pattern'',
             is_gitignored = False, in_git_history = False, is_still_tracked = False\<rparr>
        else (findings, None))"

definition scan_line ::
  "PyLib \<Rightarrow> Scanner \<Rightarrow> string \<Rightarrow> Finding list \<Rightarrow> int \<times> string \<Rightarrow> Finding list \<times> re_error option" where
  "scan_line lib sc path findings il =
     (case il of (i, line) \<Rightarrow>
        if should_exclude_line (pattern_manager sc) line then (findings, None)
        else
          (case for_each_st (override_step lib sc path i line) findings
                  (compiled_overrides (pattern_manager sc)) of
             (fs1, Some e) \<Rightarrow> (fs1, Some e)
           | (fs1, None) \<Rightarrow>
          (case for_each_st (pattern_step lib sc path i line) fs1
                  (compiled_patterns (pattern_manager sc)) of
             (fs2, Some e) \<Rightarrow> (fs2, Some e)
           | (fs2, None) \<Rightarrow>
               if is_config_file (lib_fnmatch lib) (pattern_config sc) path then
                 for_each_st (config_step lib sc path i line) fs2
                   (compiled_config_patterns (pattern_manager sc))
               else (fs2, None))))"

text \<open>
  \<open>scan_lines\<close> is the body of \<^verbatim>\<open>scan_file\<close> once the file is open, which is also the
  specification's \<^verbatim>\<open>scan(path, lines)\<close>; \<^verbatim>\<open>except Exception\<close> drops the exception and
  the findings appended so far are returned.
\<close>

definition scan_lines :: "PyLib \<Rightarrow> Scanner \<Rightarrow> string \<Rightarrow> string list \<Rightarrow> Finding list" where
  "scan_lines lib sc path lines = fst (for_each_st (scan_line lib sc path) [] (enumerate1 lines))"

definition scan_file :: "PyLib \<Rightarrow> Scanner \<Rightarrow> World \<Rightarrow> string \<Rightarrow> Finding list" where
  "scan_file lib sc w path =
     (case open_file w path of
        None \<Rightarrow> []
      | Some lines \<Rightarrow> scan_lines lib sc path lines)"

subsection \<open>secrets_scanner2.py: the git-history scanner\<close>

text \<open>
  The tagging loop of \<^verbatim>\<open>GitHistoryScanner.scan_historical_files\<close>, for one finding of a
  historical file.
\<close>

definition tag_historical :: "bool \<Rightarrow> Finding \<Rightarrow> Finding" where
  "tag_historical is_tracked finding =
     (let f1 = finding\<lparr>is_gitignored := True, in_git_history := True,
                        is_still_tracked := is_tracked\<rparr>
      in if is_tracked \<and> severity f1 \<noteq> HIGH
         then f1\<lparr>severity := HIGH,
                 description := description f1 @ '' (Gitignored but still tracked in Git)''\<rparr>
         else f1)"

text \<open>
  \<^verbatim>\<open>_scan_git_objects\<close>, from the sampled blobs (path and lines of the content) on: any
  exception makes the method return the empty list.
\<close>

definition blob_step ::
  "PyLib \<Rightarrow> Scanner \<Rightarrow> string \<Rightarrow> int \<Rightarrow> string \<Rightarrow> Finding list \<Rightarrow> matcher \<times> string \<Rightarrow>
   Finding list \<times> re_error option" where
  "blob_step lib sc path i line findings cp =
     (case cp of (compiled_pattern, pattern_str) \<Rightarrow>
        if compiled_pattern line then
          (let finding =
                 \<lparr>file_path = ''[Git blob] '' @ path, line_number = i,
                  line_content = strip line, pattern = pattern_str, severity = HIGH,
                  risk_type = determine_risk_type line,
                  description = ''Found in Git history blob'',
                  is_gitignored = False, in_git_history = True, is_still_tracked = False\<rparr>
           in case is_allowlisted (lib_re_match lib) (allowlist sc) finding of
                Inl e \<Rightarrow> (findings, Some e)
              | Inr allowed \<Rightarrow>
                  if allowed then (findings, None) else (findings @ [finding], None))
        else (findings, None))"

definition blob_line ::
  "PyLib \<Rightarrow> Scanner \<Rightarrow> string \<Rightarrow> Finding list \<Rightarrow> int \<times> string \<Rightarrow> Finding list \<times> re_error option" where
  "blob_line lib sc path findings il =
     (case il of (i, line) \<Rightarrow>
        if should_exclude_line (pattern_manager sc) line then (findings, None)
        else for_each_st (blob_step lib sc path i line) findings
               (compiled_patterns (pattern_manager sc)))"

definition blob_scan ::
  "PyLib \<Rightarrow> Scanner \<Rightarrow> Finding list \<Rightarrow> string \<times> string list \<Rightarrow> Finding list \<times> re_error option" where
  "blob_scan lib sc findings blob =
     (case blob of (path, content) \<Rightarrow>
        for_each_st (blob_line lib sc path) findings (enumerate1 content))"

definition scan_git_objects :: "PyLib \<Rightarrow> Scanner \<Rightarrow> World \<Rightarrow> Finding list" where
  "scan_git_objects lib sc w =
     (if \<not> is_git_repo sc then []
      else case for_each_st (blob_scan lib sc) [] (sampled_blobs w) of
             (findings, None) \<Rightarrow> findings
           | (findings, Some e) \<Rightarrow> [])"

definition historical_file_findings ::
  "PyLib \<Rightarrow> Scanner \<Rightarrow> World \<Rightarrow> string \<times> bool \<Rightarrow> Finding list" where
  "historical_file_findings lib sc w hf =
     (case hf of (path, is_tracked) \<Rightarrow>
        if \<not> should_scan_file (lib_fnmatch lib) (pattern_config sc) path then []
        else map (tag_historical is_tracked) (scan_file lib sc w path))"

definition scan_historical_files :: "PyLib \<Rightarrow> Scanner \<Rightarrow> World \<Rightarrow> Finding list" where
  "scan_historical_files lib sc w =
     (if \<not> is_git_repo sc then []
      else concat (map (historical_file_findings lib sc w) (historical_files w)) @
           (if deep_scan sc then scan_git_objects lib sc w else []))"

subsection \<open>secrets_scanner2.py: detect-secrets results and the main \<^verbatim>\<open>scan\<close>\<close>

definition get_line_content :: "World \<Rightarrow> string \<Rightarrow> int \<Rightarrow> string" where
  "get_line_content w path n =
     (case open_file w path of
        None \<Rightarrow> ''<could not read line>''
      | Some content \<Rightarrow>
          (case find (\<lambda>(i, line). i = n) (enumerate1 content) of
             Some (i, line) \<Rightarrow> strip line
           | None \<Rightarrow> []))"

text \<open>
  The conversion loop of \<^verbatim>\<open>_run_detect_secrets_scan\<close>, for one reported secret
  (file name, line number, type); an exception skips that secret only.
\<close>

definition detect_secret_finding :: "Scanner \<Rightarrow> World \<Rightarrow> string \<times> int \<times> string \<Rightarrow> Finding" where
  "detect_secret_finding sc w secret =
     (case secret of (filename, n, secret_type) \<Rightarrow>
        (let content = get_line_content w filename n in
         \<lparr>file_path = filename, line_number = n, line_content = content,
          pattern = ''detect-secrets:'' @ secret_type,
          severity =
            (if list_ex (\<lambda>t. str_in t (lower content)) [''test'', ''example'', ''sample'', ''mock'']
             then MEDIUM else HIGH),
          risk_type = determine_risk_type content,
          description = ''Secret detected by detect-secrets: '' @ secret_type,
          is_gitignored = (is_git_repo sc \<and> is_file_gitignored w filename),
          in_git_history = False, is_still_tracked = False\<rparr>))"

definition detect_step ::
  "PyLib \<Rightarrow> Scanner \<Rightarrow> World \<Rightarrow> Finding list \<Rightarrow> string \<times> int \<times> string \<Rightarrow> Finding list" where
  "detect_step lib sc w findings secret =
     (let finding = detect_secret_finding sc w secret in
      case is_allowlisted (lib_re_match lib) (allowlist sc) finding of
        Inl e \<Rightarrow> findings
      | Inr allowed \<Rightarrow>
          if allowed then findings
          else if high_only sc \<and> severity finding \<noteq> HIGH then findings
          else findings @ [finding])"

definition run_detect_secrets_scan :: "PyLib \<Rightarrow> Scanner \<Rightarrow> World \<Rightarrow> Finding list" where
  "run_detect_secrets_scan lib sc w =
     (if \<not> use_detect_secrets sc then []
      else foldl (detect_step lib sc w) [] (detected_secrets w))"

definition collect_files_to_scan :: "PyLib \<Rightarrow> Scanner \<Rightarrow> World \<Rightarrow> string list" where
  "collect_files_to_scan lib sc w =
     (let candidates = filter (should_scan_file (lib_fnmatch lib) (pattern_config sc)) (walked_files w);
          ignored = (\<lambda>path. is_git_repo sc \<and> is_file_gitignored w path)
      in filter (\<lambda>path. \<not> ignored path) candidates @
         (if scan_gitignored sc then filter ignored candidates else []))"

text \<open>
  The duplicate removal at the end of \<^verbatim>\<open>scan\<close>. \<open>unique_findings\<close> is a Python dict:
  an association list in insertion order; assigning to a key that is present replaces
  the value in place, assigning to a new key appends.
\<close>

fun dict_set :: "'k \<Rightarrow> 'v \<Rightarrow> ('k \<times> 'v) list \<Rightarrow> ('k \<times> 'v) list" where
  "dict_set k v [] = [(k, v)]"
| "dict_set k v ((k', v') # rest) =
     (if k' = k then (k, v) # rest else (k', v') # dict_set k v rest)"

definition unique_step :: "(string \<times> Finding) list \<Rightarrow> Finding \<Rightarrow> (string \<times> Finding) list" where
  "unique_step unique_findings finding =
     (case map_of unique_findings (fingerprint finding) of
        None \<Rightarrow> dict_set (fingerprint finding) finding unique_findings
      | Some existing \<Rightarrow>
          if (severity finding = HIGH \<and> severity existing \<noteq> HIGH) \<or>
             (severity finding = MEDIUM \<and> severity existing = LOW)
          then dict_set (fingerprint finding) finding unique_findings
          else unique_findings)"

definition remove_duplicates :: "Finding list \<Rightarrow> Finding list" where
  "remove_duplicates all_findings = map snd (foldl unique_step [] all_findings)"

definition scan :: "PyLib \<Rightarrow> Scanner \<Rightarrow> World \<Rightarrow> Finding list" where
  "scan lib sc w =
     (let files_to_scan = collect_files_to_scan lib sc w in
      if files_to_scan = [] then []
      else
        (let pattern_findings = concat (map (scan_file lib sc w) files_to_scan);
             detect_secrets_findings =
               (if use_detect_secrets sc then run_detect_secrets_scan lib sc w else []);
             git_findings =
               (if check_git_history sc then scan_historical_files lib sc w else [])
         in remove_duplicates (pattern_findings @ detect_secrets_findings @ git_findings)))"

subsection \<open>secrets_scanner.py: \<^verbatim>\<open>SecretsScanner.scan\<close>\<close>

text \<open>
  The severity raise for a historical file that git still tracks, as the \<^verbatim>\<open>if\<close> after
  the construction of the finding writes it. \<open>still_tracked\<close> is the local variable
  \<^verbatim>\<open>is_still_tracked\<close>: the Finding of this file has no attribute of that name.
\<close>

definition escalate_v1 :: "bool \<Rightarrow> bool \<Rightarrow> Finding \<Rightarrow> Finding" where
  "escalate_v1 is_historical still_tracked finding =
     (if is_historical \<and> still_tracked \<and> severity finding \<noteq> HIGH
      then finding\<lparr>severity := HIGH\<rparr> else finding)"

definition scan_step_v1 ::
  "PyLib \<Rightarrow> Scanner \<Rightarrow> World \<Rightarrow> string \<Rightarrow> bool \<Rightarrow> bool \<Rightarrow> int \<Rightarrow> string \<Rightarrow> Finding list \<Rightarrow>
   matcher \<times> string \<Rightarrow> Finding list \<times> re_error option" where
  "scan_step_v1 lib sc w path is_historical still_tracked i line findings cp =
     (case cp of (compiled_pattern, pattern_str) \<Rightarrow>
        if compiled_pattern line then
          (case determine_severity_and_risk_v1 (lib_re_search lib) (pattern_manager sc)
                  path line pattern_str of
             (sev, risk) \<Rightarrow>
               (let finding = escalate_v1 is_historical still_tracked
                      \<lparr>file_path = path, line_number = i, line_content = strip line,
                       pattern = pattern_str, severity = sev, risk_type = risk,
                       description = [],
                       is_gitignored =
                         (is_historical \<or> (is_git_repo sc \<and> is_file_gitignored w path)),
                       in_git_history = is_historical, is_still_tracked = False\<rparr>
                in case is_acceptable_finding (lib_re_match lib) (acceptable_findings sc) finding of
                     Inl e \<Rightarrow> (findings, Some e)
                   | Inr acceptable \<Rightarrow>
                       if acceptable then (findings, None)
                       else if high_only sc \<and> severity finding \<noteq> HIGH then (findings, None)
                       else (findings @ [finding], None)))
        else (findings, None))"

definition scan_line_v1 ::
  "PyLib \<Rightarrow> Scanner \<Rightarrow> World \<Rightarrow> string \<Rightarrow> bool \<Rightarrow> bool \<Rightarrow> Finding list \<Rightarrow> int \<times> string \<Rightarrow>
   Finding list \<times> re_error option" where
  "scan_line_v1 lib sc w path is_historical still_tracked findings il =
     (case il of (i, line) \<Rightarrow>
        if should_exclude (pattern_manager sc) line then (findings, None)
        else
          (let all_patterns = compiled_patterns (pattern_manager sc) @
                              compiled_overrides (pattern_manager sc) @
                              compiled_config_patterns (pattern_manager sc)
           in for_each_st (scan_step_v1 lib sc w path is_historical still_tracked i line)
                findings all_patterns))"

text \<open>
  The per-file body of the scanning loop, from the lookup of the file among the
  historical ones on; \<open>scan_lines_v1\<close> is what it does once the file is open.
\<close>

definition scan_lines_v1 ::
  "PyLib \<Rightarrow> Scanner \<Rightarrow> World \<Rightarrow> string \<Rightarrow> bool \<Rightarrow> bool \<Rightarrow> Finding list \<Rightarrow> string list \<Rightarrow>
   Finding list" where
  "scan_lines_v1 lib sc w path is_historical still_tracked findings lines =
     fst (for_each_st (scan_line_v1 lib sc w path is_historical still_tracked) findings
            (enumerate1 lines))"

definition scan_file_v1 ::
  "PyLib \<Rightarrow> Scanner \<Rightarrow> World \<Rightarrow> (string \<times> bool) list \<Rightarrow> Finding list \<Rightarrow> string \<Rightarrow> Finding list" where
  "scan_file_v1 lib sc w hist findings path =
     (let is_historical = list_ex (\<lambda>(f, t). f = path) hist;
          still_tracked =
            (if is_historical then
               (case find (\<lambda>(f, t). f = path) hist of Some (f, t) \<Rightarrow> t | None \<Rightarrow> False)
             else False)
      in case open_file w path of
           None \<Rightarrow> findings
         | Some lines \<Rightarrow> scan_lines_v1 lib sc w path is_historical still_tracked findings lines)"

text \<open>
  The conversion loop of \<^verbatim>\<open>_run_detect_secrets_scan\<close> in secrets_scanner.py; the
  library reports line numbers from zero here. An exception leaves through the outer
  \<^verbatim>\<open>except Exception\<close>, which returns the empty list.
\<close>

definition detect_line_content_v1 :: "World \<Rightarrow> string \<Rightarrow> int \<Rightarrow> string" where
  "detect_line_content_v1 w filename n =
     (case open_file w filename of
        None \<Rightarrow> ''<Could not read line '' @ str_int (n + 1) @ ''>''
      | Some content \<Rightarrow>
          (case find (\<lambda>(i, line). i = n + 1) (enumerate1 content) of
             Some (i, line) \<Rightarrow> strip line
           | None \<Rightarrow> []))"

definition detect_step_v1 ::
  "PyLib \<Rightarrow> Scanner \<Rightarrow> World \<Rightarrow> Finding list \<Rightarrow> string \<times> int \<times> string \<Rightarrow>
   Finding list \<times> re_error option" where
  "detect_step_v1 lib sc w findings secret =
     (case secret of (filename, n, secret_type) \<Rightarrow>
        (let content = detect_line_content_v1 w filename n;
             ignored = (is_git_repo sc \<and> is_file_gitignored w filename)
         in case determine_severity_and_risk_v1 (lib_re_search lib) (pattern_manager sc)
                   filename content (''detect-secrets:'' @ secret_type) of
              (sev, risk) \<Rightarrow>
                (let finding =
                       \<lparr>file_path = filename, line_number = n + 1, line_content = content,
                        pattern = ''detect-secrets:'' @ secret_type, severity = sev,
                        risk_type = risk, description = [],
                        is_gitignored = ignored,
                        in_git_history =
                          (ignored \<and> check_git_history sc \<and> is_file_in_git_history w filename),
                        is_still_tracked = False\<rparr>
                 in case is_acceptable_finding (lib_re_match lib) (acceptable_findings sc) finding of
                      Inl e \<Rightarrow> (findings, Some e)
                    | Inr acceptable \<Rightarrow>
                        if acceptable then (findings, None)
                        else if high_only sc \<and> sev \<noteq> HIGH then (findings, None)
                        else (findings @ [finding], None))))"

definition run_detect_secrets_scan_v1 :: "PyLib \<Rightarrow> Scanner \<Rightarrow> World \<Rightarrow> Finding list" where
  "run_detect_secrets_scan_v1 lib sc w =
     (case for_each_st (detect_step_v1 lib sc w) [] (detected_secrets w) of
        (findings, None) \<Rightarrow> findings
      | (findings, Some e) \<Rightarrow> [])"

text \<open>The duplicate removal of secrets_scanner.py: the first finding of a fingerprint stays.\<close>

definition unique_step_v1 :: "(string \<times> Finding) list \<Rightarrow> Finding \<Rightarrow> (string \<times> Finding) list" where
  "unique_step_v1 unique_findings finding =
     (case map_of unique_findings (fingerprint finding) of
        None \<Rightarrow> dict_set (fingerprint finding) finding unique_findings
      | Some existing \<Rightarrow> unique_findings)"

definition remove_duplicates_v1 :: "Finding list \<Rightarrow> Finding list" where
  "remove_duplicates_v1 findings = map snd (foldl unique_step_v1 [] findings)"

definition regular_files_v1 :: "PyLib \<Rightarrow> Scanner \<Rightarrow> World \<Rightarrow> string list" where
  "regular_files_v1 lib sc w =
     filter (\<lambda>path.
        \<not> list_ex (\<lambda>pat. lib_fnmatch lib path pat) (exclude_dirs (pattern_config sc)) \<and>
        list_ex (\<lambda>ext. lib_fnmatch lib (basename path) ext) (extensions (pattern_config sc)) \<and>
        \<not> (is_git_repo sc \<and> is_file_gitignored w path)) (walked_files w)"

definition scan_v1 :: "PyLib \<Rightarrow> Scanner \<Rightarrow> World \<Rightarrow> Finding list" where
  "scan_v1 lib sc w =
     (let hist = (if is_git_repo sc then historical_files w else []);
          all_files_to_scan = regular_files_v1 lib sc w @ map fst hist;
          findings = foldl (scan_file_v1 lib sc w hist) [] all_files_to_scan;
          detect_secrets_findings =
            (if use_detect_secrets sc then run_detect_secrets_scan_v1 lib sc w else [])
      in remove_duplicates_v1 (findings @ detect_secrets_findings))"

section \<open>Definitions that follow the specification's words\<close>

text \<open>
  The specification's risk-type pre-pass, as its section 4.2 words it: the third test
  asks for a bracketed section header, an opening bracket with a closing bracket
  somewhere after it.
\<close>

definition spec_has_bracketed_header :: "string \<Rightarrow> bool" where
  "spec_has_bracketed_header line = (CHR '']'' \<in> set (dropWhile (\<lambda>c. c \<noteq> CHR ''['') line))"

definition spec_risk_type :: "string \<Rightarrow> RiskType" where
  "spec_risk_type line =
     (if list_ex (\<lambda>t. str_in t (lower line)) [''console.'', ''print'', ''echo'', ''log.'']
        then DATA_EXPOSURE_LOGS
      else if list_ex (\<lambda>t. str_in t (lower line)) [''return'', ''res.'', ''response'']
        then DATA_EXPOSURE_RESPONSE
      else if spec_has_bracketed_header line then SENSITIVE_CONFIG
      else HARDCODED_SECRET)"

text \<open>
  The specification's order of the allowlist checks (section 4.3): the exact full
  fingerprint, then the exact bare fingerprint, then the wildcard entries.
\<close>

definition spec_is_allowed ::
  "(string \<Rightarrow> string \<Rightarrow> 'e + bool) \<Rightarrow> string list \<Rightarrow> Finding \<Rightarrow> 'e + bool" where
  "spec_is_allowed re_match entries finding =
     (if full_fingerprint finding \<in> set entries then Inr True
      else if fingerprint finding \<in> set entries then Inr True
      else allowlist_patterns re_match entries finding)"

text \<open>
  The specification's choice of the survivor among the findings of one fingerprint
  (section 4.5, step 3): the first HIGH one; if none is HIGH, the first MEDIUM one;
  otherwise the first.
\<close>

definition spec_survivor :: "Finding list \<Rightarrow> Finding option" where
  "spec_survivor grp =
     (case find (\<lambda>x. severity x = HIGH) grp of
        Some h \<Rightarrow> Some h
      | None \<Rightarrow>
          (case find (\<lambda>x. severity x = MEDIUM) grp of
             Some m \<Rightarrow> Some m
           | None \<Rightarrow> (case grp of [] \<Rightarrow> None | x # rest \<Rightarrow> Some x)))"

text \<open>The specification's order of severities, HIGH above MEDIUM above LOW.\<close>

definition severity_rank :: "Severity \<Rightarrow> nat" where
  "severity_rank s = (case s of HIGH \<Rightarrow> 2 | MEDIUM \<Rightarrow> 1 | LOW \<Rightarrow> 0)"

section \<open>Auxiliary notions for the proofs\<close>

text \<open>
  The invariant of the duplicate removal of secrets_scanner2.py after a prefix \<open>ys\<close> of the
  stream; where a finding of \<^verbatim>\<open>scan_file\<close> comes from; the pattern groups that
  \<^verbatim>\<open>scan_file\<close> applies to a path.
\<close>

definition dedup_inv :: "(string \<times> Finding) list \<Rightarrow> Finding list \<Rightarrow> bool" where
  "dedup_inv d ys \<longleftrightarrow>
     distinct (map fst d) \<and> set (map fst d) = fingerprint ` set ys \<and>
     (\<forall>k v. map_of d k = Some v \<longrightarrow>
        spec_survivor (filter (\<lambda>g. fingerprint g = k) ys) = Some v)"

definition made_by :: "string \<Rightarrow> int \<Rightarrow> (matcher \<times> string) list \<Rightarrow> string \<Rightarrow> Finding \<Rightarrow> bool" where
  "made_by path i grp line f \<longleftrightarrow>
     file_path f = path \<and> line_number f = i \<and> list_ex (\<lambda>(m, p). p = pattern f \<and> m line) grp"

definition active_patterns :: "PyLib \<Rightarrow> Scanner \<Rightarrow> string \<Rightarrow> (matcher \<times> string) list" where
  "active_patterns lib sc path =
     compiled_overrides (pattern_manager sc) @ compiled_patterns (pattern_manager sc) @
     (if is_config_file (lib_fnmatch lib) (pattern_config sc) path
      then compiled_config_patterns (pattern_manager sc) else [])"

text \<open>
  The outcome of a sequence of tests of which each answers \<open>Inr False\<close> (go on), \<open>Inr True\<close>
  (matched) or \<open>Inl e\<close> (raised): that of the first test that does not answer \<open>Inr False\<close>.
\<close>

fun first_decisive :: "('e + bool) list \<Rightarrow> 'e + bool" where
  "first_decisive [] = Inr False"
| "first_decisive (r # rs) = (if r = Inr False then first_decisive rs else r)"

text \<open>
  An exception of \<^verbatim>\<open>re.compile\<close> that no \<^verbatim>\<open>except re.error\<close> clause catches, and what each
  loop of \<^verbatim>\<open>_compile_patterns\<close> stores for a pattern when nothing escapes.
\<close>

definition escapes :: "py_exception + 'a \<Rightarrow> bool" where
  "escapes r \<longleftrightarrow> r = Inl OverflowError \<or> r = Inl RecursionError"

definition kept_primary ::
  "(string \<Rightarrow> py_exception + matcher) \<Rightarrow> string \<Rightarrow> (matcher \<times> string) option" where
  "kept_primary rc p =
     (case rc p of
        Inr m \<Rightarrow> Some (m, p)
      | Inl x \<Rightarrow> (case rc (simplified_pattern p) of Inr m \<Rightarrow> Some (m, p) | Inl y \<Rightarrow> None))"

definition kept_plain ::
  "(string \<Rightarrow> py_exception + matcher) \<Rightarrow> string \<Rightarrow> (matcher \<times> string) option" where
  "kept_plain rc p = (case rc p of Inr m \<Rightarrow> Some (m, p) | Inl x \<Rightarrow> None)"

definition kept_exclusion :: "(string \<Rightarrow> py_exception + matcher) \<Rightarrow> string \<Rightarrow> matcher option" where
  "kept_exclusion rc p = (case rc p of Inr m \<Rightarrow> Some m | Inl x \<Rightarrow> None)"

definition patterns_to_use :: "PatternConfig \<Rightarrow> string list" where
  "patterns_to_use cfg =
     (if mode cfg = ''strict'' then strict_patterns cfg
      else loose_patterns cfg @ additional_patterns cfg)"




section \<open>A small repository\<close>

text \<open>
  One tracked source file and one file that is ignored, still tracked and in the history.
  The compiled patterns are literal ones, for which a case-insensitive search is a
  substring test on the lower-cased line; \<open>example_fnmatch\<close> covers the globs with one
  leading star.
\<close>

definition example_fnmatch :: "string \<Rightarrow> string \<Rightarrow> bool" where
  "example_fnmatch name pat =
     (case pat of [] \<Rightarrow> name = [] | c # rest \<Rightarrow> if c = CHR ''*'' then suffix rest name else name = pat)"

definition example_lib :: PyLib where
  "example_lib = \<lparr>lib_re_search = (\<lambda>p s. False), lib_re_match = py_re_match,
                   lib_fnmatch = example_fnmatch\<rparr>"

definition example_scanner :: Scanner where
  "example_scanner =
     \<lparr>pattern_config =
        \<lparr>mode = ''strict'', loose_patterns = [], additional_patterns = [],
         strict_patterns = [''password''], override_patterns = [], config_patterns = [''key=''],
         exclusion_patterns = [''#''], extensions = [''*.py''], config_files = [''*.ini''],
         exclude_dirs = []\<rparr>,
      pattern_manager =
        \<lparr>compiled_patterns = [(\<lambda>s. str_in ''password'' (lower s), ''password'')],
         compiled_overrides = [],
         compiled_config_patterns = [(\<lambda>s. str_in ''key='' (lower s), ''key='')],
         compiled_exclusions = [\<lambda>s. str_in ''#'' (lower s)]\<rparr>,
      allowlist = [], acceptable_findings = [], high_only = False, is_git_repo = True,
      scan_gitignored = False, use_detect_secrets = False, check_git_history = True,
      deep_scan = False\<rparr>"

definition example_world :: World where
  "example_world =
     \<lparr>open_file = (\<lambda>p. if p = ''app.py'' then Some [''# password = x'', ''password = hunter2'']
                        else if p = ''old.py'' then Some [''key=abc'', ''password = hunter2'']
                        else None),
      walked_files = [''app.py'', ''old.py''],
      is_file_gitignored = (\<lambda>p. p = ''old.py''),
      is_file_in_git_history = (\<lambda>p. p = ''old.py''),
      historical_files = [(''old.py'', True)],
      detected_secrets = [],
      sampled_blobs = []\<rparr>"

section \<open>Verified properties\<close>

subsection \<open>The classifier ignores the matching pattern\<close>

text \<open>
  Claim C10. The classifier's result does not depend on its \<open>matching_pattern\<close> argument:
  for every file path, every line and any two pattern strings, both generations of
  \<^verbatim>\<open>_determine_severity_and_risk\<close> return the same pair of severity and risk type.
\<close>

theorem classify_independent_of_pattern:
  "determine_severity_and_risk re_search fnmatch cfg pm path line p1 =
     determine_severity_and_risk re_search fnmatch cfg pm path line p2 \<and>
   determine_severity_and_risk_v1 re_search pm path line p1 =
     determine_severity_and_risk_v1 re_search pm path line p2"
  by (simp add: determine_severity_and_risk_def determine_severity_and_risk_v1_def)

subsection \<open>Strings\<close>

lemma str_in_iff: "str_in t s \<longleftrightarrow> (\<exists>a b. s = a @ t @ b)"
proof (induction s)
  case Nil
  then show ?case by auto
next
  case (Cons c cs)
  show ?case
  proof
    assume "str_in t (c # cs)"
    then consider "prefix t (c # cs)" | "str_in t cs" by auto
    then show "\<exists>a b. c # cs = a @ t @ b"
    proof cases
      case 1
      then obtain b where "c # cs = t @ b" by (auto simp: prefix_def)
      then have "c # cs = [] @ t @ b" by simp
      then show ?thesis by blast
    next
      case 2
      with Cons.IH obtain a b where "cs = a @ t @ b" by blast
      then have "c # cs = (c # a) @ t @ b" by simp
      then show ?thesis by blast
    qed
  next
    assume "\<exists>a b. c # cs = a @ t @ b"
    then obtain a b where ab: "c # cs = a @ t @ b" by blast
    show "str_in t (c # cs)"
    proof (cases a)
      case Nil
      with ab have "prefix t (c # cs)" by (simp add: prefix_def)
      then show ?thesis by simp
    next
      case (Cons x a')
      with ab have "cs = a' @ t @ b" by simp
      with Cons.IH have "str_in t cs" by blast
      then show ?thesis by simp
    qed
  qed
qed

lemma str_in_char: "str_in [c] s \<longleftrightarrow> c \<in> set s"
  by (induction s) auto

lemma spec_has_bracketed_header_iff:
  "spec_has_bracketed_header line \<longleftrightarrow> (\<exists>a b c. line = a @ ''['' @ b @ '']'' @ c)"
proof
  show "spec_has_bracketed_header line \<Longrightarrow> \<exists>a b c. line = a @ ''['' @ b @ '']'' @ c"
  proof (induction line)
    case Nil
    then show ?case by (simp add: spec_has_bracketed_header_def)
  next
    case (Cons x xs)
    show ?case
    proof (cases "x = CHR ''[''")
      case True
      with Cons.prems have "CHR '']'' \<in> set xs" by (simp add: spec_has_bracketed_header_def)
      then obtain b c where "xs = b @ CHR '']'' # c" by (auto simp: in_set_conv_decomp)
      with True have "x # xs = [] @ ''['' @ b @ '']'' @ c" by simp
      then show ?thesis by blast
    next
      case False
      with Cons.prems have "spec_has_bracketed_header xs"
        by (simp add: spec_has_bracketed_header_def)
      with Cons.IH obtain a b c where "xs = a @ ''['' @ b @ '']'' @ c" by blast
      then have "x # xs = (x # a) @ ''['' @ b @ '']'' @ c" by simp
      then show ?thesis by blast
    qed
  qed
next
  assume "\<exists>a b c. line = a @ ''['' @ b @ '']'' @ c"
  then obtain a b c where l: "line = a @ ''['' @ b @ '']'' @ c" by blast
  show "spec_has_bracketed_header line"
    unfolding spec_has_bracketed_header_def l
  proof (induction a)
    case Nil
    then show ?case by simp
  next
    case (Cons x a)
    then show ?case by (cases "x = CHR ''[''") auto
  qed
qed

subsection \<open>The risk-type pre-pass\<close>

text \<open>
  Claim C4, as amended. In secrets_scanner2.py the pre-pass answers DATA_EXPOSURE_LOGS
  when the lower-cased line contains one of \<open>console.\<close>, \<open>print\<close>, \<open>echo\<close>, \<open>log.\<close>;
  otherwise DATA_EXPOSURE_RESPONSE when it contains one of \<open>return\<close>, \<open>res.\<close>,
  \<open>response\<close>; otherwise SENSITIVE_CONFIG when the line holds both an opening and a
  closing square bracket, in either order; otherwise HARDCODED_SECRET. On every line
  without \<open>log.\<close> the pre-pass of secrets_scanner.py gives the same answer.
\<close>

theorem risk_type_prepass_amended:
  "determine_risk_type line =
     (if (\<exists>t \<in> set [''console.'', ''print'', ''echo'', ''log.'']. \<exists>a b. lower line = a @ t @ b)
        then DATA_EXPOSURE_LOGS
      else if (\<exists>t \<in> set [''return'', ''res.'', ''response'']. \<exists>a b. lower line = a @ t @ b)
        then DATA_EXPOSURE_RESPONSE
      else if CHR ''['' \<in> set line \<and> CHR '']'' \<in> set line then SENSITIVE_CONFIG
      else HARDCODED_SECRET) \<and>
   ((\<nexists>a b. lower line = a @ ''log.'' @ b) \<longrightarrow>
      determine_risk_type_v1 line = determine_risk_type line)"
  unfolding determine_risk_type_def determine_risk_type_v1_def list_ex_iff str_in_iff[symmetric]
  by (simp add: str_in_char)

theorem risk_type_prepass_amended_witness:
  "(\<nexists>a b. lower ''print(token)'' = a @ ''log.'' @ b) \<and>
   determine_risk_type_v1 ''print(token)'' = DATA_EXPOSURE_LOGS \<and>
   determine_risk_type ''print(token)'' = DATA_EXPOSURE_LOGS"
proof -
  have no_log: "\<nexists>a b. lower ''print(token)'' = a @ ''log.'' @ b"
    unfolding str_in_iff[symmetric] by (simp add: lower_def lower_char_def)
  have v2: "determine_risk_type ''print(token)'' = DATA_EXPOSURE_LOGS"
    by (simp add: determine_risk_type_def lower_def lower_char_def)
  from risk_type_prepass_amended[of "''print(token)''"] no_log v2 show ?thesis by simp
qed

text \<open>
  The claim as written fails twice. The line \<open>] [\<close> has no bracketed section header,
  yet both files answer SENSITIVE_CONFIG for it, since they look for the two bracket
  characters separately. And secrets_scanner.py has no \<open>log.\<close> in its lexicon: a line
  whose only logging token is \<open>log.\<close> is a HARDCODED_SECRET there.
\<close>

theorem risk_type_prepass_counterexample:
  "determine_risk_type ''] ['' = SENSITIVE_CONFIG \<and>
   spec_risk_type ''] ['' = HARDCODED_SECRET \<and>
   determine_risk_type_v1 ''log.info(user.password)'' = HARDCODED_SECRET \<and>
   spec_risk_type ''log.info(user.password)'' = DATA_EXPOSURE_LOGS"
  by (simp add: determine_risk_type_def determine_risk_type_v1_def spec_risk_type_def
        spec_has_bracketed_header_def lower_def lower_char_def)

subsection \<open>Pattern compilation\<close>

text \<open>No loop of \<^verbatim>\<open>_compile_patterns\<close> lets a \<^verbatim>\<open>re.error\<close> out.\<close>

lemma for_each_main_no_re_error:
  "for_each (compile_main_step rc) acc ps \<noteq> Inl (ReErr e)"
proof (induction ps arbitrary: acc)
  case Nil
  show ?case by simp
next
  case (Cons p ps)
  show ?case
  proof (cases "compile_main_step rc acc p")
    case (Inr acc')
    with Cons.IH[of acc'] show ?thesis by simp
  next
    case (Inl x)
    then have "x \<noteq> ReErr e"
      by (auto simp: compile_main_step_def split: sum.splits py_exception.splits)
    with Inl show ?thesis by simp
  qed
qed

lemma for_each_plain_no_re_error:
  "for_each (compile_plain_step rc) acc ps \<noteq> Inl (ReErr e)"
proof (induction ps arbitrary: acc)
  case Nil
  show ?case by simp
next
  case (Cons p ps)
  show ?case
  proof (cases "compile_plain_step rc acc p")
    case (Inr acc')
    with Cons.IH[of acc'] show ?thesis by simp
  next
    case (Inl x)
    then have "x \<noteq> ReErr e"
      by (auto simp: compile_plain_step_def split: sum.splits py_exception.splits)
    with Inl show ?thesis by simp
  qed
qed

lemma for_each_exclusion_no_re_error:
  "for_each (compile_exclusion_step rc) acc ps \<noteq> Inl (ReErr e)"
proof (induction ps arbitrary: acc)
  case Nil
  show ?case by simp
next
  case (Cons p ps)
  show ?case
  proof (cases "compile_exclusion_step rc acc p")
    case (Inr acc')
    with Cons.IH[of acc'] show ?thesis by simp
  next
    case (Inl x)
    then have "x \<noteq> ReErr e"
      by (auto simp: compile_exclusion_step_def split: sum.splits py_exception.splits)
    with Inl show ?thesis by simp
  qed
qed

lemma compile_patterns_no_re_error: "compile_patterns rc cfg \<noteq> Inl (ReErr e)"
  unfolding compile_patterns_def Let_def
  using for_each_main_no_re_error[of rc "[]" _ e] for_each_plain_no_re_error[of rc "[]" _ e]
    for_each_exclusion_no_re_error[of rc "[]" _ e]
  by (auto split: sum.splits)

text \<open>A pattern whose compilation raises another exception ends its loop.\<close>

lemma for_each_main_escape:
  "p \<in> set ps \<Longrightarrow> escapes (rc p) \<Longrightarrow> \<exists>x. for_each (compile_main_step rc) acc ps = Inl x"
proof (induction ps arbitrary: acc)
  case Nil
  then show ?case by simp
next
  case (Cons q ps)
  show ?case
  proof (cases "compile_main_step rc acc q")
    case (Inl x)
    then show ?thesis by simp
  next
    case (Inr acc')
    have "q \<noteq> p"
    proof
      assume "q = p"
      with Cons.prems(2) Inr show False
        by (auto simp: compile_main_step_def escapes_def)
    qed
    with Cons.prems have "p \<in> set ps" by simp
    from Cons.IH[OF this Cons.prems(2), of acc'] Inr show ?thesis by simp
  qed
qed

lemma for_each_plain_escape:
  "p \<in> set ps \<Longrightarrow> escapes (rc p) \<Longrightarrow> \<exists>x. for_each (compile_plain_step rc) acc ps = Inl x"
proof (induction ps arbitrary: acc)
  case Nil
  then show ?case by simp
next
  case (Cons q ps)
  show ?case
  proof (cases "compile_plain_step rc acc q")
    case (Inl x)
    then show ?thesis by simp
  next
    case (Inr acc')
    have "q \<noteq> p"
    proof
      assume "q = p"
      with Cons.prems(2) Inr show False
        by (auto simp: compile_plain_step_def escapes_def)
    qed
    with Cons.prems have "p \<in> set ps" by simp
    from Cons.IH[OF this Cons.prems(2), of acc'] Inr show ?thesis by simp
  qed
qed

lemma for_each_exclusion_escape:
  "p \<in> set ps \<Longrightarrow> escapes (rc p) \<Longrightarrow> \<exists>x. for_each (compile_exclusion_step rc) acc ps = Inl x"
proof (induction ps arbitrary: acc)
  case Nil
  then show ?case by simp
next
  case (Cons q ps)
  show ?case
  proof (cases "compile_exclusion_step rc acc q")
    case (Inl x)
    then show ?thesis by simp
  next
    case (Inr acc')
    have "q \<noteq> p"
    proof
      assume "q = p"
      with Cons.prems(2) Inr show False
        by (auto simp: compile_exclusion_step_def escapes_def)
    qed
    with Cons.prems have "p \<in> set ps" by simp
    from Cons.IH[OF this Cons.prems(2), of acc'] Inr show ?thesis by simp
  qed
qed

text \<open>
  When nothing escapes, each loop stores, in order, what \<^verbatim>\<open>re.compile\<close> returned: for a
  primary pattern the compiled pattern itself or, after a \<^verbatim>\<open>re.error\<close>, the compiled
  simplified pattern, each paired with the original string.
\<close>

lemma for_each_main_exact:
  "\<forall>p \<in> set ps. \<not> escapes (rc p) \<and> (isl (rc p) \<longrightarrow> \<not> escapes (rc (simplified_pattern p))) \<Longrightarrow>
   for_each (compile_main_step rc) acc ps = Inr (acc @ List.map_filter (kept_primary rc) ps)"
proof (induction ps arbitrary: acc)
  case Nil
  show ?case by (simp add: List.map_filter_simps)
next
  case (Cons p ps)
  from Cons.prems have rest:
    "\<forall>p \<in> set ps. \<not> escapes (rc p) \<and> (isl (rc p) \<longrightarrow> \<not> escapes (rc (simplified_pattern p)))"
    and here: "\<not> escapes (rc p)" "isl (rc p) \<longrightarrow> \<not> escapes (rc (simplified_pattern p))"
    by simp_all
  from here have step:
    "compile_main_step rc acc p =
       Inr (acc @ (case kept_primary rc p of None \<Rightarrow> [] | Some v \<Rightarrow> [v]))"
    by (auto simp: compile_main_step_def kept_primary_def escapes_def
          split: sum.splits py_exception.splits)
  show ?case
    using Cons.IH[OF rest, of "acc @ (case kept_primary rc p of None \<Rightarrow> [] | Some v \<Rightarrow> [v])"] step
    by (simp add: List.map_filter_simps split: option.splits)
qed

lemma for_each_plain_exact:
  "\<forall>p \<in> set ps. \<not> escapes (rc p) \<Longrightarrow>
   for_each (compile_plain_step rc) acc ps = Inr (acc @ List.map_filter (kept_plain rc) ps)"
proof (induction ps arbitrary: acc)
  case Nil
  show ?case by (simp add: List.map_filter_simps)
next
  case (Cons p ps)
  from Cons.prems have rest: "\<forall>p \<in> set ps. \<not> escapes (rc p)" and here: "\<not> escapes (rc p)"
    by simp_all
  from here have step:
    "compile_plain_step rc acc p =
       Inr (acc @ (case kept_plain rc p of None \<Rightarrow> [] | Some v \<Rightarrow> [v]))"
    by (auto simp: compile_plain_step_def kept_plain_def escapes_def
          split: sum.splits py_exception.splits)
  show ?case
    using Cons.IH[OF rest, of "acc @ (case kept_plain rc p of None \<Rightarrow> [] | Some v \<Rightarrow> [v])"] step
    by (simp add: List.map_filter_simps split: option.splits)
qed

lemma for_each_exclusion_exact:
  "\<forall>p \<in> set ps. \<not> escapes (rc p) \<Longrightarrow>
   for_each (compile_exclusion_step rc) acc ps =
     Inr (acc @ List.map_filter (kept_exclusion rc) ps)"
proof (induction ps arbitrary: acc)
  case Nil
  show ?case by (simp add: List.map_filter_simps)
next
  case (Cons p ps)
  from Cons.prems have rest: "\<forall>p \<in> set ps. \<not> escapes (rc p)" and here: "\<not> escapes (rc p)"
    by simp_all
  from here have step:
    "compile_exclusion_step rc acc p =
       Inr (acc @ (case kept_exclusion rc p of None \<Rightarrow> [] | Some v \<Rightarrow> [v]))"
    by (auto simp: compile_exclusion_step_def kept_exclusion_def escapes_def
          split: sum.splits py_exception.splits)
  show ?case
    using Cons.IH[OF rest, of "acc @ (case kept_exclusion rc p of None \<Rightarrow> [] | Some v \<Rightarrow> [v])"]
      step
    by (simp add: List.map_filter_simps split: option.splits)
qed

lemma compile_patterns_exact:
  assumes "\<forall>p \<in> set (patterns_to_use cfg).
             \<not> escapes (rc p) \<and> (isl (rc p) \<longrightarrow> \<not> escapes (rc (simplified_pattern p)))"
    and "\<forall>p \<in> set (override_patterns cfg @ config_patterns cfg @ exclusion_patterns cfg).
           \<not> escapes (rc p)"
  shows "compile_patterns rc cfg =
           Inr \<lparr>compiled_patterns = List.map_filter (kept_primary rc) (patterns_to_use cfg),
                compiled_overrides = List.map_filter (kept_plain rc) (override_patterns cfg),
                compiled_config_patterns = List.map_filter (kept_plain rc) (config_patterns cfg),
                compiled_exclusions =
                  List.map_filter (kept_exclusion rc) (exclusion_patterns cfg)\<rparr>"
proof -
  have m: "for_each (compile_main_step rc) [] (patterns_to_use cfg) =
             Inr (List.map_filter (kept_primary rc) (patterns_to_use cfg))"
    using for_each_main_exact[OF assms(1), of "[]"] by simp
  have o: "for_each (compile_plain_step rc) [] (override_patterns cfg) =
             Inr (List.map_filter (kept_plain rc) (override_patterns cfg))"
    using for_each_plain_exact[of "override_patterns cfg" rc "[]"] assms(2) by simp
  have c: "for_each (compile_plain_step rc) [] (config_patterns cfg) =
             Inr (List.map_filter (kept_plain rc) (config_patterns cfg))"
    using for_each_plain_exact[of "config_patterns cfg" rc "[]"] assms(2) by simp
  have x: "for_each (compile_exclusion_step rc) [] (exclusion_patterns cfg) =
             Inr (List.map_filter (kept_exclusion rc) (exclusion_patterns cfg))"
    using for_each_exclusion_exact[of "exclusion_patterns cfg" rc "[]"] assms(2) by simp
  show ?thesis
    unfolding compile_patterns_def Let_def patterns_to_use_def[symmetric]
    by (simp add: m o c x)
qed

text \<open>
  An example: \<open>a(\<close> raises \<^verbatim>\<open>re.error\<close> and is dropped from every list; the third
  primary pattern, with a repeated white-space class, raises it too and is kept with the
  matcher of its simplified form and its own string.
\<close>

lemma compile_patterns_exact_example:
  "compile_patterns
     (\<lambda>p. if p = ''a('' \<or> p = ''x'' @ [CHR 0x5C] @ ''s+y'' then Inl (ReErr ReError)
          else Inr (str_in p))
     \<lparr>mode = ''loose'', loose_patterns = [''token'', ''a('', ''x'' @ [CHR 0x5C] @ ''s+y''],
      additional_patterns = [''key''], strict_patterns = [''auth''],
      override_patterns = [''a('', ''PWD''], config_patterns = [''user''],
      exclusion_patterns = [''TODO'', ''a(''], extensions = [], config_files = [],
      exclude_dirs = []\<rparr> =
   Inr \<lparr>compiled_patterns =
          [(str_in ''token'', ''token''),
           (str_in (''x'' @ [CHR 0x5C] @ ''s*y''), ''x'' @ [CHR 0x5C] @ ''s+y''),
           (str_in ''key'', ''key'')],
        compiled_overrides = [(str_in ''PWD'', ''PWD'')],
        compiled_config_patterns = [(str_in ''user'', ''user'')],
        compiled_exclusions = [str_in ''TODO'']\<rparr>"
  using compile_patterns_exact
    [of "\<lparr>mode = ''loose'', loose_patterns = [''token'', ''a('', ''x'' @ [CHR 0x5C] @ ''s+y''],
      additional_patterns = [''key''], strict_patterns = [''auth''],
      override_patterns = [''a('', ''PWD''], config_patterns = [''user''],
      exclusion_patterns = [''TODO'', ''a(''], extensions = [], config_files = [],
      exclude_dirs = []\<rparr>"
        "(\<lambda>p. if p = ''a('' \<or> p = ''x'' @ [CHR 0x5C] @ ''s+y'' then Inl (ReErr ReError)
          else Inr (str_in p))"]
  by (simp add: patterns_to_use_def escapes_def kept_primary_def kept_plain_def
        kept_exclusion_def List.map_filter_simps simplified_pattern_def)

text \<open>
  Claim C9 says that pattern compilation never fails, for every list of raw pattern
  strings. \<^verbatim>\<open>_compile_patterns\<close> catches \<^verbatim>\<open>re.error\<close> only: a pattern on which
  \<^verbatim>\<open>re.compile\<close> raises \<^verbatim>\<open>OverflowError\<close> or \<^verbatim>\<open>RecursionError\<close>, in whichever of the four
  lists it stands, makes the method raise, and no pattern set is built. secrets_scanner2.py
  reads the lists from a pattern file, so \<^verbatim>\<open>a{4294967296}\<close> there ends the program at
  start-up.
\<close>

theorem compile_patterns_raises_on_uncaught_exception:
  assumes "p \<in> set (patterns_to_use cfg) \<union> set (override_patterns cfg) \<union>
             set (config_patterns cfg) \<union> set (exclusion_patterns cfg)"
    and "rc p = Inl OverflowError \<or> rc p = Inl RecursionError"
  shows "\<exists>x. compile_patterns rc cfg = Inl x \<and> (x = OverflowError \<or> x = RecursionError)"
proof -
  from assms(2) have esc: "escapes (rc p)" by (simp add: escapes_def)
  have "\<exists>x. compile_patterns rc cfg = Inl x"
  proof (cases "for_each (compile_main_step rc) [] (patterns_to_use cfg)")
    case (Inl x)
    then show ?thesis
      unfolding compile_patterns_def Let_def patterns_to_use_def[symmetric] by simp
  next
    case main: (Inr ps)
    with esc for_each_main_escape[where rc = rc and p = p and ps = "patterns_to_use cfg" and acc = "[]"]
    have p1: "p \<notin> set (patterns_to_use cfg)" by auto
    show ?thesis
    proof (cases "for_each (compile_plain_step rc) [] (override_patterns cfg)")
      case (Inl x)
      with main show ?thesis
        unfolding compile_patterns_def Let_def patterns_to_use_def[symmetric] by simp
    next
      case over: (Inr os)
      with esc
        for_each_plain_escape[where rc = rc and p = p and ps = "override_patterns cfg" and acc = "[]"]
      have p2: "p \<notin> set (override_patterns cfg)" by auto
      show ?thesis
      proof (cases "for_each (compile_plain_step rc) [] (config_patterns cfg)")
        case (Inl x)
        with main over show ?thesis
          unfolding compile_patterns_def Let_def patterns_to_use_def[symmetric] by simp
      next
        case conf: (Inr cs)
        with esc
          for_each_plain_escape[where rc = rc and p = p and ps = "config_patterns cfg" and acc = "[]"]
        have p3: "p \<notin> set (config_patterns cfg)" by auto
        with p1 p2 assms(1) have "p \<in> set (exclusion_patterns cfg)" by simp
        from for_each_exclusion_escape
          [where rc = rc and p = p and ps = "exclusion_patterns cfg" and acc = "[]", OF this esc]
          main over conf show ?thesis
          unfolding compile_patterns_def Let_def patterns_to_use_def[symmetric] by auto
      qed
    qed
  qed
  then obtain x where x: "compile_patterns rc cfg = Inl x" ..
  with compile_patterns_no_re_error[of rc cfg] have "x = OverflowError \<or> x = RecursionError"
    by (cases x) auto
  with x show ?thesis by simp
qed

theorem compile_patterns_raises_on_uncaught_exception_witness:
  "compile_patterns
     (\<lambda>p. if p = ''a{4294967296}'' then Inl OverflowError
          else if p = ''a('' then Inl (ReErr ReError) else Inr (str_in p))
     \<lparr>mode = ''loose'', loose_patterns = [''token'', ''a('', ''a{4294967296}''],
      additional_patterns = [''key''], strict_patterns = [''auth''],
      override_patterns = [''PWD''], config_patterns = [''user''],
      exclusion_patterns = [''TODO''], extensions = [], config_files = [],
      exclude_dirs = []\<rparr> = Inl OverflowError"
  using compile_patterns_raises_on_uncaught_exception
    [of "''a{4294967296}''"
        "\<lparr>mode = ''loose'', loose_patterns = [''token'', ''a('', ''a{4294967296}''],
          additional_patterns = [''key''], strict_patterns = [''auth''],
          override_patterns = [''PWD''], config_patterns = [''user''],
          exclusion_patterns = [''TODO''], extensions = [], config_files = [],
          exclude_dirs = []\<rparr>"
        "\<lambda>p. if p = ''a{4294967296}'' then Inl OverflowError
             else if p = ''a('' then Inl (ReErr ReError) else Inr (str_in p)"]
  by (simp add: patterns_to_use_def compile_patterns_def compile_main_step_def
        simplified_pattern_def)

subsection \<open>Decimal line numbers and the converted wildcard entry\<close>

lemma digit_char_inj: "k < 10 \<Longrightarrow> ''0123456789'' ! k = ''0123456789'' ! j \<Longrightarrow> j < 10 \<Longrightarrow> k = j"
proof -
  have d: "distinct ''0123456789''" by simp
  assume "k < 10" "''0123456789'' ! k = ''0123456789'' ! j" "j < 10"
  then show ?thesis using d nth_eq_iff_index_eq[OF d, of k j] by simp
qed

lemma str_nat_nonempty: "str_nat n \<noteq> []"
  by (subst str_nat.simps) simp

lemma str_nat_digits: "set (str_nat n) \<subseteq> set ''0123456789''"
proof (induction n rule: str_nat.induct)
  case (1 n)
  have nth_in: "\<And>k. k < 10 \<Longrightarrow> ''0123456789'' ! k \<in> set ''0123456789''"
    by (rule nth_mem) simp
  show ?case
  proof (cases "n < 10")
    case True
    then show ?thesis using nth_in[of n] by (subst str_nat.simps) simp
  next
    case False
    then have "set (str_nat (n div 10)) \<subseteq> set ''0123456789''" using 1 by simp
    moreover have "''0123456789'' ! (n mod 10) \<in> set ''0123456789''" by (rule nth_in) simp
    ultimately show ?thesis using False by (subst str_nat.simps) simp
  qed
qed

lemma str_int_nonempty: "str_int i \<noteq> []"
  by (simp add: str_int_def str_nat_nonempty)

lemma str_int_no_colon: "CHR '':'' \<notin> set (str_int i)"
  using str_nat_digits by (auto simp: str_int_def)

lemma str_nat_one_digit: "str_nat m = [''0123456789'' ! k] \<Longrightarrow> k < 10 \<Longrightarrow> m = k"
proof -
  assume a: "str_nat m = [''0123456789'' ! k]" and k: "k < 10"
  show ?thesis
  proof (cases "m < 10")
    case True
    with a have "''0123456789'' ! m = ''0123456789'' ! k" by (subst (asm) str_nat.simps) simp
    with True k show ?thesis using digit_char_inj by blast
  next
    case False
    with a have "str_nat (m div 10) = []" by (subst (asm) str_nat.simps) simp
    then show ?thesis using str_nat_nonempty by blast
  qed
qed

lemma str_nat_42: "str_nat m = ''42'' \<Longrightarrow> m = 42"
proof -
  assume a: "str_nat m = ''42''"
  show ?thesis
  proof (cases "m < 10")
    case True
    with a show ?thesis by (subst (asm) str_nat.simps) simp
  next
    case False
    with a have "str_nat (m div 10) @ [''0123456789'' ! (m mod 10)] = ''42''"
      by (subst (asm) str_nat.simps) simp
    then have hi: "str_nat (m div 10) = [''0123456789'' ! 4]"
      and lo: "''0123456789'' ! (m mod 10) = ''0123456789'' ! 2"
      by (simp_all add: append_eq_Cons_conv)
    from hi have "m div 10 = 4" using str_nat_one_digit by simp
    moreover from lo have "m mod 10 = 2" using digit_char_inj[of "m mod 10" 2] by simp
    ultimately show ?thesis by presburger
  qed
qed

lemma str_int_42: "str_int i = ''42'' \<longleftrightarrow> i = 42"
proof
  assume a: "str_int i = ''42''"
  show "i = 42"
  proof (cases "i < 0")
    case True
    with a show ?thesis by (simp add: str_int_def)
  next
    case False
    with a have "nat i = 42" using str_nat_42 by (simp add: str_int_def)
    with False show ?thesis by simp
  qed
next
  assume "i = 42"
  then show "str_int i = ''42''" by (simp add: str_int_def str_nat.simps)
qed


lemma star_any_matches: "items_match [Star a] s"
  by (cases s) simp_all

lemma glob_42_regex: "py_replace ''*'' ''.*'' ''src/config.py:42:*'' = ''src/config.py:42:.*''"
  by simp

lemma glob_42_match:
  "py_re_match ''src/config.py:42:.*'' (''src/config.py:'' @ rest) = Inr (prefix ''42:'' rest)"
proof -
  have "items_match [One (Lit CHR ''4''), One (Lit CHR ''2''), One (Lit CHR '':''), Star AnyChar] rest
          = prefix ''42:'' rest"
  proof (cases rest)
    case Nil
    then show ?thesis by simp
  next
    case r1: (Cons c1 t1)
    show ?thesis
    proof (cases t1)
      case Nil
      with r1 show ?thesis by simp
    next
      case r2: (Cons c2 t2)
      show ?thesis
      proof (cases t2)
        case Nil
        with r1 r2 show ?thesis by simp
      next
        case (Cons c3 t3)
        with r1 r2 show ?thesis by (auto simp: star_any_matches)
      qed
    qed
  qed
  then show ?thesis by (simp add: py_re_match_def re_special_def)
qed

lemma prefix_42_colon:
  assumes "prefix ''42:'' (d @ t)" and "CHR '':'' \<notin> set d" and "d \<noteq> []"
    and "t = [] \<or> hd t = CHR '':''"
  shows "d = ''42'' \<and> t \<noteq> []"
proof (cases d)
  case Nil
  with assms(3) show ?thesis by simp
next
  case d1: (Cons c1 d')
  show ?thesis
  proof (cases d')
    case Nil
    with d1 assms(1,4) show ?thesis by (cases t) auto
  next
    case d2: (Cons c2 d'')
    show ?thesis
    proof (cases d'')
      case Nil
      with d1 d2 assms(1) show ?thesis by (cases t) auto
    next
      case (Cons c3 d3)
      with d1 d2 assms(1,2) show ?thesis by auto
    qed
  qed
qed

lemma glob_42_fingerprint:
  "file_path f = ''src/config.py'' \<Longrightarrow>
   py_re_match ''src/config.py:42:.*'' (fingerprint f) = Inr False"
proof -
  assume fp: "file_path f = ''src/config.py''"
  have "\<not> prefix ''42:'' (str_int (line_number f) @ [])"
    using prefix_42_colon[of "str_int (line_number f)" "[]"] str_int_no_colon str_int_nonempty
    by blast
  then have "\<not> prefix ''42:'' (str_int (line_number f))" by simp
  moreover have "fingerprint f = ''src/config.py:'' @ str_int (line_number f)"
    using fp by (simp add: fingerprint_def)
  ultimately show ?thesis using glob_42_match[of "str_int (line_number f)"] by simp
qed

lemma glob_42_full_fingerprint:
  "file_path f = ''src/config.py'' \<Longrightarrow>
   py_re_match ''src/config.py:42:.*'' (full_fingerprint f) = Inr (line_number f = 42)"
proof -
  assume fp: "file_path f = ''src/config.py''"
  let ?t = "'':'' @ pattern f"
  have full: "full_fingerprint f = ''src/config.py:'' @ (str_int (line_number f) @ ?t)"
    using fp by (simp add: full_fingerprint_def)
  have "prefix ''42:'' (str_int (line_number f) @ ?t) \<longleftrightarrow> line_number f = 42"
  proof
    assume "prefix ''42:'' (str_int (line_number f) @ ?t)"
    then have "str_int (line_number f) = ''42''"
      using prefix_42_colon[of "str_int (line_number f)" ?t] str_int_no_colon str_int_nonempty
      by simp
    then show "line_number f = 42" by (simp add: str_int_42)
  next
    assume "line_number f = 42"
    then have "str_int (line_number f) = ''42''" by (simp add: str_int_42)
    then show "prefix ''42:'' (str_int (line_number f) @ ?t)" by simp
  qed
  then show ?thesis using glob_42_match[of "str_int (line_number f) @ ?t"] full by simp
qed

lemma entry_42_not_fingerprint:
  "file_path f = ''src/config.py'' \<Longrightarrow> fingerprint f \<noteq> ''src/config.py:42:*''"
proof
  assume fp: "file_path f = ''src/config.py''" and eq: "fingerprint f = ''src/config.py:42:*''"
  then have "str_int (line_number f) = ''42:*''" by (simp add: fingerprint_def)
  then have "CHR '':'' \<in> set (str_int (line_number f))" by simp
  then show False using str_int_no_colon by blast
qed

lemma entry_42_full_fingerprint:
  "file_path f = ''src/config.py'' \<Longrightarrow> full_fingerprint f = ''src/config.py:42:*'' \<Longrightarrow>
   line_number f = 42"
proof -
  assume fp: "file_path f = ''src/config.py''" and eq: "full_fingerprint f = ''src/config.py:42:*''"
  then have "str_int (line_number f) @ '':'' @ pattern f = ''42:*''"
    by (simp add: full_fingerprint_def)
  then have "prefix ''42:'' (str_int (line_number f) @ ('':'' @ pattern f))" by simp
  then have "str_int (line_number f) = ''42''"
    using prefix_42_colon[of "str_int (line_number f)" "'':'' @ pattern f"]
      str_int_no_colon str_int_nonempty by simp
  then show ?thesis by (simp add: str_int_42)
qed

text \<open>
  Claim C2. With the allowlist holding the single entry \<open>src/config.py:42:*\<close>, a finding
  in \<open>src/config.py\<close> is allowed exactly when its line number is 42, whatever its
  matched pattern: true at line 42, false at every other line of that file. Both
  \<^verbatim>\<open>is_allowlisted\<close> and \<^verbatim>\<open>_is_acceptable_finding\<close> behave so.
\<close>

theorem allowlist_line_glob:
  assumes "file_path f = ''src/config.py''"
  shows "is_allowlisted py_re_match [''src/config.py:42:*''] f = Inr (line_number f = 42) \<and>
         is_acceptable_finding py_re_match [''src/config.py:42:*''] f = Inr (line_number f = 42)"
proof -
  note fp = assms
  have v2: "is_allowlisted py_re_match [''src/config.py:42:*''] f = Inr (line_number f = 42)"
  proof (cases "full_fingerprint f = ''src/config.py:42:*''")
    case True
    then show ?thesis
      using entry_42_full_fingerprint[OF fp True] by (simp add: is_allowlisted_def)
  next
    case False
    then show ?thesis
      using entry_42_not_fingerprint[OF fp] glob_42_fingerprint[OF fp]
        glob_42_full_fingerprint[OF fp]
      by (cases "line_number f = 42")
         (simp_all add: is_allowlisted_def del: py_replace.simps add: glob_42_regex)
  qed
  have v1: "is_acceptable_finding py_re_match [''src/config.py:42:*''] f = Inr (line_number f = 42)"
  proof (cases "full_fingerprint f = ''src/config.py:42:*''")
    case True
    then show ?thesis using entry_42_full_fingerprint[OF fp True] by simp
  next
    case False
    then show ?thesis
      using glob_42_full_fingerprint[OF fp]
      by (cases "line_number f = 42") (simp_all del: py_replace.simps add: glob_42_regex)
  qed
  from v2 v1 show ?thesis by simp
qed

subsection \<open>Allowlist entries with a wildcard\<close>

theorem allowlist_line_glob_witness:
  "file_path \<lparr>file_path = ''src/config.py'', line_number = 42, line_content = ''key = abc'',
      pattern = ''key'', severity = LOW, risk_type = HARDCODED_SECRET, description = [],
      is_gitignored = False, in_git_history = False, is_still_tracked = False\<rparr> = ''src/config.py'' \<and>
   is_allowlisted py_re_match [''src/config.py:42:*'']
     \<lparr>file_path = ''src/config.py'', line_number = 42, line_content = ''key = abc'',
      pattern = ''key'', severity = LOW, risk_type = HARDCODED_SECRET, description = [],
      is_gitignored = False, in_git_history = False, is_still_tracked = False\<rparr> = Inr True \<and>
   is_acceptable_finding py_re_match [''src/config.py:42:*'']
     \<lparr>file_path = ''src/config.py'', line_number = 420, line_content = ''key = abc'',
      pattern = ''key'', severity = LOW, risk_type = HARDCODED_SECRET, description = [],
      is_gitignored = False, in_git_history = False, is_still_tracked = False\<rparr> = Inr False"
  using allowlist_line_glob
    [of "\<lparr>file_path = ''src/config.py'', line_number = 42, line_content = ''key = abc'',
      pattern = ''key'', severity = LOW, risk_type = HARDCODED_SECRET, description = [],
      is_gitignored = False, in_git_history = False, is_still_tracked = False\<rparr>"]
    allowlist_line_glob
    [of "\<lparr>file_path = ''src/config.py'', line_number = 420, line_content = ''key = abc'',
      pattern = ''key'', severity = LOW, risk_type = HARDCODED_SECRET, description = [],
      is_gitignored = False, in_git_history = False, is_still_tracked = False\<rparr>"]
  by simp

text \<open>When no wildcard entry makes \<^verbatim>\<open>re.match\<close> raise, both matchers return.\<close>

lemma allowlist_patterns_no_error:
  "\<forall>e \<in> set al. str_in ''*'' e \<longrightarrow> (\<forall>s. rm (py_replace ''*'' ''.*'' e) s \<noteq> Inl ReError) \<Longrightarrow>
   \<exists>b. allowlist_patterns rm al f = Inr b"
proof (induction al)
  case Nil
  show ?case by (simp add: exI[of _ False])
next
  case (Cons e al)
  from Cons.prems have "\<forall>e \<in> set al. str_in ''*'' e \<longrightarrow>
      (\<forall>s. rm (py_replace ''*'' ''.*'' e) s \<noteq> Inl ReError)" by simp
  from Cons.IH[OF this] obtain b where rest: "allowlist_patterns rm al f = Inr b" by blast
  show ?case
  proof (cases "str_in ''*'' e")
    case False
    with rest show ?thesis by auto
  next
    case True
    with Cons.prems have ok: "\<And>s. rm (py_replace ''*'' ''.*'' e) s \<noteq> Inl ReError" by simp
    obtain b1 where b1: "rm (py_replace ''*'' ''.*'' e) (fingerprint f) = Inr b1"
      using ok[of "fingerprint f"] by (cases "rm (py_replace ''*'' ''.*'' e) (fingerprint f)")
        (auto intro: re_error.exhaust)
    obtain b2 where b2: "rm (py_replace ''*'' ''.*'' e) (full_fingerprint f) = Inr b2"
      using ok[of "full_fingerprint f"]
      by (cases "rm (py_replace ''*'' ''.*'' e) (full_fingerprint f)")
        (auto intro: re_error.exhaust)
    from True b1 b2 rest show ?thesis by (cases b1; cases b2) (auto simp del: py_replace.simps)
  qed
qed

lemma is_acceptable_finding_no_error:
  "\<forall>e \<in> set al. str_in ''*'' e \<longrightarrow> (\<forall>s. rm (py_replace ''*'' ''.*'' e) s \<noteq> Inl ReError) \<Longrightarrow>
   \<exists>b. is_acceptable_finding rm al f = Inr b"
proof (induction al)
  case Nil
  show ?case by (simp add: exI[of _ False])
next
  case (Cons e al)
  from Cons.prems have "\<forall>e \<in> set al. str_in ''*'' e \<longrightarrow>
      (\<forall>s. rm (py_replace ''*'' ''.*'' e) s \<noteq> Inl ReError)" by simp
  from Cons.IH[OF this] obtain b where rest: "is_acceptable_finding rm al f = Inr b" by blast
  show ?case
  proof (cases "str_in ''*'' e")
    case False
    with rest show ?thesis by auto
  next
    case True
    with Cons.prems have ok: "\<And>s. rm (py_replace ''*'' ''.*'' e) s \<noteq> Inl ReError" by simp
    obtain b2 where b2: "rm (py_replace ''*'' ''.*'' e) (full_fingerprint f) = Inr b2"
      using ok[of "full_fingerprint f"]
      by (cases "rm (py_replace ''*'' ''.*'' e) (full_fingerprint f)")
        (auto intro: re_error.exhaust)
    from True b2 rest show ?thesis by (cases b2) (auto simp del: py_replace.simps)
  qed
qed

lemma first_decisive_raises:
  "first_decisive rs = Inl e \<longleftrightarrow>
     (\<exists>pre post. rs = pre @ Inl e # post \<and> (\<forall>r \<in> set pre. r = Inr False))"
proof (induction rs)
  case Nil
  show ?case by simp
next
  case (Cons r rs)
  show ?case
  proof (cases "r = Inr False")
    case True
    show ?thesis
    proof
      assume "first_decisive (r # rs) = Inl e"
      with True Cons.IH obtain pre post where
        "rs = pre @ Inl e # post" "\<forall>r \<in> set pre. r = Inr False" by auto
      with True have "r # rs = (r # pre) @ Inl e # post \<and> (\<forall>x \<in> set (r # pre). x = Inr False)"
        by simp
      then show "\<exists>pre post. r # rs = pre @ Inl e # post \<and> (\<forall>r \<in> set pre. r = Inr False)"
        by blast
    next
      assume "\<exists>pre post. r # rs = pre @ Inl e # post \<and> (\<forall>r \<in> set pre. r = Inr False)"
      then obtain pre post where
        eq: "r # rs = pre @ Inl e # post" and pre: "\<forall>r \<in> set pre. r = Inr False" by blast
      from eq True obtain pre' where "pre = r # pre'" by (cases pre) auto
      with eq pre have "rs = pre' @ Inl e # post \<and> (\<forall>r \<in> set pre'. r = Inr False)" by simp
      with Cons.IH have "first_decisive rs = Inl e" by blast
      with True show "first_decisive (r # rs) = Inl e" by simp
    qed
  next
    case False
    show ?thesis
    proof
      assume "first_decisive (r # rs) = Inl e"
      with False have "r = Inl e" by simp
      then have "r # rs = [] @ Inl e # rs \<and> (\<forall>x \<in> set []. x = Inr False)" by simp
      then show "\<exists>pre post. r # rs = pre @ Inl e # post \<and> (\<forall>r \<in> set pre. r = Inr False)"
        by blast
    next
      assume "\<exists>pre post. r # rs = pre @ Inl e # post \<and> (\<forall>r \<in> set pre. r = Inr False)"
      then obtain pre post where
        eq: "r # rs = pre @ Inl e # post" and pre: "\<forall>r \<in> set pre. r = Inr False" by blast
      from eq pre False have "pre = []" by (cases pre) auto
      with eq have "r = Inl e" by simp
      then show "first_decisive (r # rs) = Inl e" by simp
    qed
  qed
qed

lemma allowlist_patterns_first_decisive:
  "allowlist_patterns rm al f =
     first_decisive
       (map (\<lambda>x. if rm (py_replace ''*'' ''.*'' x) (fingerprint f) = Inr False
                 then rm (py_replace ''*'' ''.*'' x) (full_fingerprint f)
                 else rm (py_replace ''*'' ''.*'' x) (fingerprint f))
          (filter (str_in ''*'') al))"
proof (induction al)
  case Nil
  show ?case by simp
next
  case (Cons x al)
  show ?case
  proof (cases "str_in ''*'' x")
    case False
    with Cons.IH show ?thesis by simp
  next
    case True
    show ?thesis
    proof (cases "rm (py_replace ''*'' ''.*'' x) (fingerprint f)")
      case (Inl e)
      with True show ?thesis by (simp del: py_replace.simps)
    next
      case first: (Inr b)
      show ?thesis
      proof (cases b)
        case True
        with first \<open>str_in ''*'' x\<close> show ?thesis by (simp del: py_replace.simps)
      next
        case False
        note nb = this
        show ?thesis
        proof (cases "rm (py_replace ''*'' ''.*'' x) (full_fingerprint f)")
          case (Inl e)
          with first nb \<open>str_in ''*'' x\<close> show ?thesis by (simp del: py_replace.simps)
        next
          case (Inr c)
          with first nb \<open>str_in ''*'' x\<close> Cons.IH show ?thesis
            by (cases c) (simp_all del: py_replace.simps)
        qed
      qed
    qed
  qed
qed

lemma is_acceptable_finding_first_decisive:
  "is_acceptable_finding rm al f =
     first_decisive
       (map (\<lambda>x. if full_fingerprint f = x then Inr True
                 else rm (py_replace ''*'' ''.*'' x) (full_fingerprint f))
          (filter (\<lambda>x. full_fingerprint f = x \<or> str_in ''*'' x) al))"
proof (induction al)
  case Nil
  show ?case by simp
next
  case (Cons x al)
  show ?case
  proof (cases "full_fingerprint f = x")
    case True
    then show ?thesis by simp
  next
    case ne: False
    show ?thesis
    proof (cases "str_in ''*'' x")
      case False
      with ne Cons.IH show ?thesis by simp
    next
      case True
      show ?thesis
      proof (cases "rm (py_replace ''*'' ''.*'' x) (full_fingerprint f)")
        case (Inl e)
        with ne True show ?thesis by (simp del: py_replace.simps)
      next
        case (Inr c)
        with ne True Cons.IH show ?thesis by (cases c) (simp_all del: py_replace.simps)
      qed
    qed
  qed
qed

text \<open>
  Claim C8, as amended. Neither matcher escapes anything, and both can raise. In
  secrets_scanner2.py an exact match of either fingerprint answers true before any
  wildcard entry is looked at; otherwise the entries with a \<open>*\<close> are tried in stored order,
  each handed to \<^verbatim>\<open>re.match\<close> with every \<open>*\<close> replaced by \<open>.*\<close>, against the bare fingerprint
  and, when that does not match, against the full fingerprint. In secrets_scanner.py the
  entries are tried in order, each compared with the full fingerprint and, when it differs
  and has a \<open>*\<close>, handed to \<^verbatim>\<open>re.match\<close> in the same way against the full fingerprint. The
  answer is that of the first test that does not say "no match": true when it matches, the
  exception when \<^verbatim>\<open>re.match\<close> raises, and false when there is no such test. So the call
  raises exactly when a call of \<^verbatim>\<open>re.match\<close> raises before any entry has matched.
\<close>

theorem allowlist_answer_is_first_decisive_entry:
  "(fingerprint f \<in> set al \<or> full_fingerprint f \<in> set al \<longrightarrow>
      is_allowlisted rm al f = Inr True) \<and>
   (fingerprint f \<notin> set al \<and> full_fingerprint f \<notin> set al \<longrightarrow>
      is_allowlisted rm al f =
        first_decisive
          (map (\<lambda>x. if rm (py_replace ''*'' ''.*'' x) (fingerprint f) = Inr False
                    then rm (py_replace ''*'' ''.*'' x) (full_fingerprint f)
                    else rm (py_replace ''*'' ''.*'' x) (fingerprint f))
             (filter (str_in ''*'') al))) \<and>
   is_acceptable_finding rm al f =
     first_decisive
       (map (\<lambda>x. if full_fingerprint f = x then Inr True
                 else rm (py_replace ''*'' ''.*'' x) (full_fingerprint f))
          (filter (\<lambda>x. full_fingerprint f = x \<or> str_in ''*'' x) al)) \<and>
   (first_decisive rs = Inl e \<longleftrightarrow>
      (\<exists>pre post. rs = pre @ Inl e # post \<and> (\<forall>r \<in> set pre. r = Inr False)))"
  using allowlist_patterns_first_decisive[of rm al f]
    is_acceptable_finding_first_decisive[of rm al f] first_decisive_raises[of rs e]
  by (simp add: is_allowlisted_def del: py_replace.simps)

theorem allowlist_answer_is_first_decisive_entry_witness:
  "is_allowlisted py_re_match [''s*'', ''src/[config.py:*'']
     \<lparr>file_path = ''src/app.py'', line_number = 7, line_content = ''token = x'',
      pattern = ''token'', severity = LOW, risk_type = HARDCODED_SECRET, description = [],
      is_gitignored = False, in_git_history = False, is_still_tracked = False\<rparr> = Inr True \<and>
   is_acceptable_finding py_re_match [''s*'', ''src/[config.py:*'']
     \<lparr>file_path = ''src/app.py'', line_number = 7, line_content = ''token = x'',
      pattern = ''token'', severity = LOW, risk_type = HARDCODED_SECRET, description = [],
      is_gitignored = False, in_git_history = False, is_still_tracked = False\<rparr> = Inr True \<and>
   is_allowlisted py_re_match [''src/[config.py:*'', ''s*'']
     \<lparr>file_path = ''src/app.py'', line_number = 7, line_content = ''token = x'',
      pattern = ''token'', severity = LOW, risk_type = HARDCODED_SECRET, description = [],
      is_gitignored = False, in_git_history = False, is_still_tracked = False\<rparr> = Inl ReError \<and>
   first_decisive [Inr False, Inl ReError, Inr True] = Inl ReError"
  using allowlist_answer_is_first_decisive_entry
    [of "\<lparr>file_path = ''src/app.py'', line_number = 7, line_content = ''token = x'',
      pattern = ''token'', severity = LOW, risk_type = HARDCODED_SECRET, description = [],
      is_gitignored = False, in_git_history = False, is_still_tracked = False\<rparr>"
      "[''s*'', ''src/[config.py:*'']" py_re_match "[Inr False, Inl ReError, Inr True]" ReError]
    allowlist_answer_is_first_decisive_entry
    [of "\<lparr>file_path = ''src/app.py'', line_number = 7, line_content = ''token = x'',
      pattern = ''token'', severity = LOW, risk_type = HARDCODED_SECRET, description = [],
      is_gitignored = False, in_git_history = False, is_still_tracked = False\<rparr>"
      "[''src/[config.py:*'', ''s*'']" py_re_match "[]" ReError]
  by (simp add: fingerprint_def full_fingerprint_def str_int_def str_nat.simps
        py_re_match_def re_special_def)

text \<open>
  The claim as written fails: the entry \<open>src/[config.py:*\<close> becomes the expression
  \<open>src/[config.py:.*\<close>, whose character set is never closed, and \<^verbatim>\<open>re.match\<close> raises
  out of both matchers.
\<close>

theorem allowlist_malformed_glob_counterexample:
  "is_allowlisted py_re_match [''src/[config.py:*'']
     \<lparr>file_path = ''src/app.py'', line_number = 7, line_content = ''token = x'',
      pattern = ''token'', severity = LOW, risk_type = HARDCODED_SECRET, description = [],
      is_gitignored = False, in_git_history = False, is_still_tracked = False\<rparr> = Inl ReError \<and>
   is_acceptable_finding py_re_match [''src/[config.py:*'']
     \<lparr>file_path = ''src/app.py'', line_number = 7, line_content = ''token = x'',
      pattern = ''token'', severity = LOW, risk_type = HARDCODED_SECRET, description = [],
      is_gitignored = False, in_git_history = False, is_still_tracked = False\<rparr> = Inl ReError"
  by (simp add: is_allowlisted_def fingerprint_def full_fingerprint_def str_int_def
        str_nat.simps py_re_match_def re_special_def)

subsection \<open>Exact allowlist entries\<close>

text \<open>
  In secrets_scanner2.py a stored bare fingerprint allows every finding of that line, and
  the two exact tests commute, so the result is that of the specification's order.
\<close>

lemma is_allowlisted_bare_fingerprint:
  "fingerprint f \<in> set al \<Longrightarrow> is_allowlisted rm al f = Inr True"
  by (simp add: is_allowlisted_def)

lemma is_allowlisted_spec_order: "is_allowlisted rm al f = spec_is_allowed rm al f"
  by (simp add: is_allowlisted_def spec_is_allowed_def)

text \<open>
  Claim C5 asks that a stored bare fingerprint allow a finding whatever its pattern.
  secrets_scanner.py compares entries with the full fingerprint only: with the entry
  \<open>src/app.py:7\<close> a finding at that line is not accepted there, while
  secrets_scanner2.py allows it.
\<close>

theorem acceptable_finding_misses_bare_fingerprint:
  "fingerprint \<lparr>file_path = ''src/app.py'', line_number = 7, line_content = ''token = x'',
      pattern = ''token'', severity = LOW, risk_type = HARDCODED_SECRET, description = [],
      is_gitignored = False, in_git_history = False, is_still_tracked = False\<rparr> = ''src/app.py:7'' \<and>
   is_acceptable_finding re_match [''src/app.py:7'']
     \<lparr>file_path = ''src/app.py'', line_number = 7, line_content = ''token = x'',
      pattern = ''token'', severity = LOW, risk_type = HARDCODED_SECRET, description = [],
      is_gitignored = False, in_git_history = False, is_still_tracked = False\<rparr> = Inr False \<and>
   is_allowlisted re_match [''src/app.py:7'']
     \<lparr>file_path = ''src/app.py'', line_number = 7, line_content = ''token = x'',
      pattern = ''token'', severity = LOW, risk_type = HARDCODED_SECRET, description = [],
      is_gitignored = False, in_git_history = False, is_still_tracked = False\<rparr> = Inr True"
  by (simp add: is_allowlisted_def fingerprint_def full_fingerprint_def str_int_def str_nat.simps)

subsection \<open>Duplicate removal\<close>

text \<open>
  The duplicate removal of secrets_scanner2.py keeps, for every fingerprint of the
  stream, exactly the finding that the specification names: the first HIGH one, else
  the first MEDIUM one, else the first. The proof carries \<open>dedup_inv\<close> along the stream.
\<close>

lemma find_snoc:
  "find P (xs @ [y]) = (case find P xs of Some x \<Rightarrow> Some x | None \<Rightarrow> if P y then Some y else None)"
  by (induction xs) auto

lemma spec_survivor_single: "spec_survivor [f] = Some f"
  by (cases "severity f") (simp_all add: spec_survivor_def)

lemma spec_survivor_mem: "spec_survivor grp = Some s \<Longrightarrow> s \<in> set grp"
  by (auto simp: spec_survivor_def find_Some_iff split: option.splits list.splits)

lemma spec_survivor_snoc:
  assumes "spec_survivor grp = Some e"
  shows "spec_survivor (grp @ [f]) =
           Some (if (severity f = HIGH \<and> severity e \<noteq> HIGH) \<or>
                    (severity f = MEDIUM \<and> severity e = LOW) then f else e)"
proof (cases "find (\<lambda>x. severity x = HIGH) grp")
  case (Some h)
  with assms have "e = h" by (simp add: spec_survivor_def)
  moreover from Some have "severity h = HIGH" by (auto simp: find_Some_iff)
  ultimately show ?thesis using Some by (simp add: spec_survivor_def find_snoc)
next
  case noH: None
  show ?thesis
  proof (cases "find (\<lambda>x. severity x = MEDIUM) grp")
    case (Some m)
    with noH assms have "e = m" by (simp add: spec_survivor_def)
    moreover from Some have "severity m = MEDIUM" by (auto simp: find_Some_iff)
    ultimately show ?thesis using Some noH
      by (cases "severity f") (simp_all add: spec_survivor_def find_snoc)
  next
    case noM: None
    with noH assms obtain rest where g: "grp = e # rest"
      by (auto simp: spec_survivor_def split: list.splits)
    from noH g have "severity e \<noteq> HIGH" by (auto simp: find_None_iff)
    moreover from noM g have "severity e \<noteq> MEDIUM" by (auto simp: find_None_iff)
    ultimately have "severity e = LOW" by (cases "severity e") auto
    then show ?thesis using noH noM g
      by (cases "severity f") (simp_all add: spec_survivor_def find_snoc)
  qed
qed

lemma map_of_dict_set: "map_of (dict_set k v d) = (map_of d)(k \<mapsto> v)"
  by (induction d) (auto simp: fun_eq_iff)

lemma keys_dict_set_new: "k \<notin> set (map fst d) \<Longrightarrow> map fst (dict_set k v d) = map fst d @ [k]"
  by (induction d) auto

lemma keys_dict_set_old: "k \<in> set (map fst d) \<Longrightarrow> map fst (dict_set k v d) = map fst d"
  by (induction d) force+

lemma keys_dict_set:
  "map fst (dict_set k v d) = (if k \<in> set (map fst d) then map fst d else map fst d @ [k])"
  using keys_dict_set_new[of k d v] keys_dict_set_old[of k d v] by simp

lemma dedup_inv_step:
  assumes "dedup_inv d ys"
  shows "dedup_inv (unique_step d f) (ys @ [f])"
proof -
  let ?k = "fingerprint f"
  from assms have dist: "distinct (map fst d)"
    and keys: "set (map fst d) = fingerprint ` set ys"
    and surv: "\<And>k v. map_of d k = Some v \<Longrightarrow>
        spec_survivor (filter (\<lambda>g. fingerprint g = k) ys) = Some v"
    by (auto simp: dedup_inv_def)
  show ?thesis
  proof (cases "map_of d ?k")
    case None
    then have notin: "?k \<notin> set (map fst d)" by (simp add: map_of_eq_None_iff)
    then have "\<forall>g \<in> set ys. fingerprint g \<noteq> ?k"
      unfolding keys by (metis image_eqI)
    then have empty: "filter (\<lambda>g. fingerprint g = ?k) ys = []"
      by (simp add: filter_empty_conv)
    have step: "unique_step d f = dict_set ?k f d" using None by (simp add: unique_step_def)
    have "distinct (map fst (dict_set ?k f d))" using dist notin by (simp add: keys_dict_set)
    moreover have "set (map fst (dict_set ?k f d)) = fingerprint ` set (ys @ [f])"
      using keys notin by (auto simp: keys_dict_set)
    moreover have "\<forall>k v. map_of (dict_set ?k f d) k = Some v \<longrightarrow>
        spec_survivor (filter (\<lambda>g. fingerprint g = k) (ys @ [f])) = Some v"
    proof (intro allI impI)
      fix k v assume a: "map_of (dict_set ?k f d) k = Some v"
      show "spec_survivor (filter (\<lambda>g. fingerprint g = k) (ys @ [f])) = Some v"
      proof (cases "k = ?k")
        case True
        with a have "v = f" by (simp add: map_of_dict_set)
        with True empty show ?thesis by (simp add: spec_survivor_single)
      next
        case False
        with a have "map_of d k = Some v" by (simp add: map_of_dict_set)
        with surv[of k v] False show ?thesis by auto
      qed
    qed
    ultimately show ?thesis unfolding step dedup_inv_def by blast
  next
    case (Some existing)
    then have isin: "?k \<in> set (map fst d)" by (metis map_of_eq_None_iff option.distinct(1) set_map)
    let ?better = "(severity f = HIGH \<and> severity existing \<noteq> HIGH) \<or>
                   (severity f = MEDIUM \<and> severity existing = LOW)"
    from surv[OF Some] have grp: "spec_survivor (filter (\<lambda>g. fingerprint g = ?k) ys) = Some existing" .
    have newgrp: "spec_survivor (filter (\<lambda>g. fingerprint g = ?k) (ys @ [f])) =
                    Some (if ?better then f else existing)"
      using spec_survivor_snoc[OF grp, of f] by simp
    have keys': "set (map fst d) = fingerprint ` set (ys @ [f])" using keys isin by auto
    show ?thesis
    proof (cases ?better)
      case True
      then have step: "unique_step d f = dict_set ?k f d" using Some by (simp add: unique_step_def)
      have "distinct (map fst (dict_set ?k f d))" using dist isin by (simp add: keys_dict_set)
      moreover have "set (map fst (dict_set ?k f d)) = fingerprint ` set (ys @ [f])"
        using keys' isin by (simp add: keys_dict_set)
      moreover have "\<forall>k v. map_of (dict_set ?k f d) k = Some v \<longrightarrow>
          spec_survivor (filter (\<lambda>g. fingerprint g = k) (ys @ [f])) = Some v"
      proof (intro allI impI)
        fix k v assume a: "map_of (dict_set ?k f d) k = Some v"
        show "spec_survivor (filter (\<lambda>g. fingerprint g = k) (ys @ [f])) = Some v"
        proof (cases "k = ?k")
          case k: True
          with a have "v = f" by (simp add: map_of_dict_set)
          with k newgrp True show ?thesis by simp
        next
          case False
          with a have "map_of d k = Some v" by (simp add: map_of_dict_set)
          with surv[of k v] False show ?thesis by auto
        qed
      qed
      ultimately show ?thesis unfolding step dedup_inv_def by blast
    next
      case False
      then have step: "unique_step d f = d" using Some by (auto simp: unique_step_def)
      have "\<forall>k v. map_of d k = Some v \<longrightarrow>
          spec_survivor (filter (\<lambda>g. fingerprint g = k) (ys @ [f])) = Some v"
      proof (intro allI impI)
        fix k v assume a: "map_of d k = Some v"
        show "spec_survivor (filter (\<lambda>g. fingerprint g = k) (ys @ [f])) = Some v"
        proof (cases "k = ?k")
          case k: True
          with a Some have "v = existing" by simp
          with k newgrp False show ?thesis by simp
        next
          case False
          with surv[OF a] show ?thesis by auto
        qed
      qed
      with dist keys' show ?thesis unfolding step dedup_inv_def by blast
    qed
  qed
qed

lemma dedup_inv_foldl: "dedup_inv (foldl unique_step [] xs) xs"
proof (induction xs rule: rev_induct)
  case Nil
  show ?case by (simp add: dedup_inv_def)
next
  case (snoc x xs)
  then show ?case using dedup_inv_step[of "foldl unique_step [] xs" xs x] by simp
qed

lemma dedup_inv_values:
  assumes "dedup_inv d ys" and "(k, v) \<in> set d"
  shows "spec_survivor (filter (\<lambda>g. fingerprint g = k) ys) = Some v \<and> fingerprint v = k"
proof -
  from assms have "map_of d k = Some v" by (simp add: dedup_inv_def)
  with assms(1) have s: "spec_survivor (filter (\<lambda>g. fingerprint g = k) ys) = Some v"
    by (simp add: dedup_inv_def)
  from spec_survivor_mem[OF s] have "fingerprint v = k" by simp
  with s show ?thesis by simp
qed

theorem remove_duplicates_keeps_best:
  "distinct (map fingerprint (remove_duplicates xs)) \<and>
   set (map fingerprint (remove_duplicates xs)) = set (map fingerprint xs) \<and>
   (\<forall>s \<in> set (remove_duplicates xs).
      spec_survivor (filter (\<lambda>g. fingerprint g = fingerprint s) xs) = Some s)"
proof -
  let ?d = "foldl unique_step [] xs"
  have inv: "dedup_inv ?d xs" by (rule dedup_inv_foldl)
  have fp: "map fingerprint (map snd ?d) = map fst ?d"
    using dedup_inv_values[OF inv] by (auto simp: map_eq_conv)
  have "\<forall>s \<in> set (map snd ?d).
      spec_survivor (filter (\<lambda>g. fingerprint g = fingerprint s) xs) = Some s"
    using dedup_inv_values[OF inv] by fastforce
  moreover have "distinct (map fingerprint (map snd ?d))"
    unfolding fp using inv by (simp add: dedup_inv_def)
  moreover have "set (map fingerprint (map snd ?d)) = set (map fingerprint xs)"
    unfolding fp using inv by (simp add: dedup_inv_def)
  ultimately show ?thesis unfolding remove_duplicates_def by blast
qed

subsection \<open>Where the findings of a scan come from\<close>

lemma for_each_st_inv:
  assumes "P st" and "\<And>s x. P s \<Longrightarrow> x \<in> set xs \<Longrightarrow> P (fst (body s x))"
  shows "P (fst (for_each_st body st xs))"
  using assms
proof (induction xs arbitrary: st)
  case Nil
  then show ?case by simp
next
  case (Cons x xs)
  obtain st' r where b: "body st x = (st', r)" by (cases "body st x")
  have p': "P st'" using Cons.prems(2)[OF Cons.prems(1), of x] b by simp
  show ?case
  proof (cases r)
    case None
    have "P (fst (for_each_st body st' xs))"
      by (rule Cons.IH[OF p']) (use Cons.prems(2) in auto)
    with b None show ?thesis by simp
  next
    case (Some e)
    with b p' show ?thesis by simp
  qed
qed

lemma made_by_mono: "made_by path i grp line f \<Longrightarrow> set grp \<subseteq> set grp' \<Longrightarrow> made_by path i grp' line f"
  by (auto simp: made_by_def list_ex_iff)

lemma gate_subset: "set (fst (gate lib sc fs f)) \<subseteq> insert f (set fs)"
  by (auto simp: gate_def split: sum.splits if_splits)

lemma override_step_made:
  "g \<in> set (fst (override_step lib sc path i line fs cp)) \<Longrightarrow>
   g \<in> set fs \<or> (made_by path i [cp] line g \<and> \<not> is_still_tracked g \<and> \<not> in_git_history g)"
  using gate_subset
  by (fastforce simp: override_step_def made_by_def split: prod.splits if_splits)

lemma pattern_step_made:
  "g \<in> set (fst (pattern_step lib sc path i line fs cp)) \<Longrightarrow>
   g \<in> set fs \<or> (made_by path i [cp] line g \<and> \<not> is_still_tracked g \<and> \<not> in_git_history g)"
  using gate_subset
  by (fastforce simp: pattern_step_def made_by_def split: prod.splits if_splits)

lemma config_step_made:
  "g \<in> set (fst (config_step lib sc path i line fs cp)) \<Longrightarrow>
   g \<in> set fs \<or> (made_by path i [cp] line g \<and> \<not> is_still_tracked g \<and> \<not> in_git_history g)"
  using gate_subset
  by (fastforce simp: config_step_def made_by_def split: prod.splits if_splits)

lemma loop_made:
  assumes step: "\<And>g fs cp. g \<in> set (fst (stp fs cp)) \<Longrightarrow>
      g \<in> set fs \<or> (made_by path i [cp] line g \<and> \<not> is_still_tracked g \<and> \<not> in_git_history g)"
    and mem: "g \<in> set (fst (for_each_st stp fs grp))"
  shows "g \<in> set fs \<or> (made_by path i grp line g \<and> \<not> is_still_tracked g \<and> \<not> in_git_history g)"
proof -
  let ?P = "\<lambda>s. \<forall>g \<in> set s. g \<in> set fs \<or>
      (made_by path i grp line g \<and> \<not> is_still_tracked g \<and> \<not> in_git_history g)"
  have "?P (fst (for_each_st stp fs grp))"
  proof (rule for_each_st_inv)
    show "?P fs" by simp
  next
    fix s x assume s: "?P s" and x: "x \<in> set grp"
    show "?P (fst (stp s x))"
    proof
      fix g assume "g \<in> set (fst (stp s x))"
      from step[OF this] s x show "g \<in> set fs \<or>
        (made_by path i grp line g \<and> \<not> is_still_tracked g \<and> \<not> in_git_history g)"
        using made_by_mono[of path i "[x]" line g grp] by auto
    qed
  qed
  with mem show ?thesis by blast
qed

lemma made_by_active:
  "made_by path i (compiled_overrides (pattern_manager sc)) line g \<Longrightarrow>
     made_by path i (active_patterns lib sc path) line g"
  "made_by path i (compiled_patterns (pattern_manager sc)) line g \<Longrightarrow>
     made_by path i (active_patterns lib sc path) line g"
  "is_config_file (lib_fnmatch lib) (pattern_config sc) path \<Longrightarrow>
   made_by path i (compiled_config_patterns (pattern_manager sc)) line g \<Longrightarrow>
     made_by path i (active_patterns lib sc path) line g"
  by (auto simp: made_by_def list_ex_iff active_patterns_def)

lemma scan_line_made:
  assumes "g \<in> set (fst (scan_line lib sc path fs (i, line)))"
  shows "g \<in> set fs \<or>
         (\<not> should_exclude_line (pattern_manager sc) line \<and>
          made_by path i (active_patterns lib sc path) line g \<and>
          \<not> is_still_tracked g \<and> \<not> in_git_history g)"
proof (cases "should_exclude_line (pattern_manager sc) line")
  case True
  with assms show ?thesis by (simp add: scan_line_def)
next
  case False
  let ?A = "active_patterns lib sc path"
  let ?Q = "\<lambda>g. made_by path i ?A line g \<and> \<not> is_still_tracked g \<and> \<not> in_git_history g"
  obtain fs1 r1 where l1: "for_each_st (override_step lib sc path i line) fs
      (compiled_overrides (pattern_manager sc)) = (fs1, r1)" by (cases "for_each_st (override_step lib sc path i line) fs
      (compiled_overrides (pattern_manager sc))")
  have q1: "\<And>g. g \<in> set fs1 \<Longrightarrow> g \<in> set fs \<or> ?Q g"
  proof -
    fix g assume "g \<in> set fs1"
    then have "g \<in> set (fst (for_each_st (override_step lib sc path i line) fs
      (compiled_overrides (pattern_manager sc))))" using l1 by simp
    moreover have "\<And>g fs cp. g \<in> set (fst (override_step lib sc path i line fs cp)) \<Longrightarrow>
        g \<in> set fs \<or> (made_by path i [cp] line g \<and> \<not> is_still_tracked g \<and> \<not> in_git_history g)"
      by (rule override_step_made)
    ultimately have "g \<in> set fs \<or> (made_by path i (compiled_overrides (pattern_manager sc)) line g \<and>
        \<not> is_still_tracked g \<and> \<not> in_git_history g)"
      using loop_made[of "override_step lib sc path i line" path i line g fs
          "compiled_overrides (pattern_manager sc)"] by blast
    then show "g \<in> set fs \<or> ?Q g"
      using made_by_active(1)[of path i sc line g lib] by blast
  qed
  show ?thesis
  proof (cases r1)
    case (Some e)
    with assms False l1 have "g \<in> set fs1" by (simp add: scan_line_def)
    with q1 False show ?thesis by blast
  next
    case None
    obtain fs2 r2 where l2: "for_each_st (pattern_step lib sc path i line) fs1
        (compiled_patterns (pattern_manager sc)) = (fs2, r2)" by (cases "for_each_st (pattern_step lib sc path i line) fs1
        (compiled_patterns (pattern_manager sc))")
    have q2: "\<And>g. g \<in> set fs2 \<Longrightarrow> g \<in> set fs \<or> ?Q g"
    proof -
      fix g assume "g \<in> set fs2"
      then have "g \<in> set (fst (for_each_st (pattern_step lib sc path i line) fs1
        (compiled_patterns (pattern_manager sc))))" using l2 by simp
      moreover have "\<And>g fs cp. g \<in> set (fst (pattern_step lib sc path i line fs cp)) \<Longrightarrow>
          g \<in> set fs \<or> (made_by path i [cp] line g \<and> \<not> is_still_tracked g \<and> \<not> in_git_history g)"
        by (rule pattern_step_made)
      ultimately have "g \<in> set fs1 \<or> (made_by path i (compiled_patterns (pattern_manager sc)) line g \<and>
          \<not> is_still_tracked g \<and> \<not> in_git_history g)"
        using loop_made[of "pattern_step lib sc path i line" path i line g fs1
            "compiled_patterns (pattern_manager sc)"] by blast
      then show "g \<in> set fs \<or> ?Q g"
        using q1[of g] made_by_active(2)[of path i sc line g lib] by blast
    qed
    show ?thesis
    proof (cases r2)
      case (Some e)
      with assms False l1 l2 None have "g \<in> set fs2" by (simp add: scan_line_def)
      with q2 False show ?thesis by blast
    next
      case r2: None
      show ?thesis
      proof (cases "is_config_file (lib_fnmatch lib) (pattern_config sc) path")
        case nc: False
        with assms False l1 l2 None r2 have "g \<in> set fs2" by (simp add: scan_line_def)
        with q2 False show ?thesis by blast
      next
        case True
        with assms False l1 l2 None r2
        have "g \<in> set (fst (for_each_st (config_step lib sc path i line) fs2
                (compiled_config_patterns (pattern_manager sc))))" by (simp add: scan_line_def)
        moreover have "\<And>g fs cp. g \<in> set (fst (config_step lib sc path i line fs cp)) \<Longrightarrow>
            g \<in> set fs \<or> (made_by path i [cp] line g \<and> \<not> is_still_tracked g \<and> \<not> in_git_history g)"
          by (rule config_step_made)
        ultimately have "g \<in> set fs2 \<or>
            (made_by path i (compiled_config_patterns (pattern_manager sc)) line g \<and>
             \<not> is_still_tracked g \<and> \<not> in_git_history g)"
          using loop_made[of "config_step lib sc path i line" path i line g fs2
              "compiled_config_patterns (pattern_manager sc)"] by blast
        then show ?thesis
          using q2[of g] False made_by_active(3)[OF True] by blast
      qed
    qed
  qed
qed

lemma scan_lines_made:
  assumes "g \<in> set (scan_lines lib sc path lines)"
  shows "\<exists>i line. (i, line) \<in> set (enumerate1 lines) \<and>
           \<not> should_exclude_line (pattern_manager sc) line \<and>
           made_by path i (active_patterns lib sc path) line g \<and>
           \<not> is_still_tracked g \<and> \<not> in_git_history g"
proof -
  let ?Q = "\<lambda>g. \<exists>i line. (i, line) \<in> set (enumerate1 lines) \<and>
           \<not> should_exclude_line (pattern_manager sc) line \<and>
           made_by path i (active_patterns lib sc path) line g \<and>
           \<not> is_still_tracked g \<and> \<not> in_git_history g"
  let ?P = "\<lambda>s. \<forall>g \<in> set s. ?Q g"
  have "?P (fst (for_each_st (scan_line lib sc path) [] (enumerate1 lines)))"
  proof (rule for_each_st_inv)
    show "?P []" by simp
  next
    fix s x assume s: "?P s" and x: "x \<in> set (enumerate1 lines)"
    obtain i line where il: "x = (i, line)" by (cases x)
    show "?P (fst (scan_line lib sc path s x))"
    proof
      fix g assume "g \<in> set (fst (scan_line lib sc path s x))"
      then have "g \<in> set (fst (scan_line lib sc path s (i, line)))" using il by simp
      from scan_line_made[OF this] s x il show "?Q g" by blast
    qed
  qed
  with assms show ?thesis unfolding scan_lines_def by blast
qed

lemma enumerate1_keys: "(i, a) \<in> set (enumerate1 xs) \<Longrightarrow> (i, b) \<in> set (enumerate1 xs) \<Longrightarrow> a = b"
proof -
  have "map fst (enumerate1 xs) = map int [1..<Suc (length xs)]"
    unfolding enumerate1_def by (rule map_fst_zip) (simp del: upt_Suc)
  moreover have "distinct (map int [1..<Suc (length xs)])"
    by (simp add: distinct_map inj_on_def del: upt_Suc)
  ultimately have "distinct (map fst (enumerate1 xs))" by simp
  then show "(i, a) \<in> set (enumerate1 xs) \<Longrightarrow> (i, b) \<in> set (enumerate1 xs) \<Longrightarrow> a = b"
    by (rule eq_key_imp_eq_value)
qed

lemma escalate_v1_fields:
  "file_path (escalate_v1 h t f) = file_path f" "line_number (escalate_v1 h t f) = line_number f"
  "pattern (escalate_v1 h t f) = pattern f"
  "\<not> h \<or> \<not> t \<or> severity (escalate_v1 h t f) = HIGH"
  by (simp_all add: escalate_v1_def)

lemma scan_step_v1_made:
  assumes "g \<in> set (fst (scan_step_v1 lib sc w path h t i line fs cp))"
  shows "g \<in> set fs \<or> (file_path g = path \<and> line_number g = i \<and> (\<not> h \<or> \<not> t \<or> severity g = HIGH))"
proof -
  obtain m p where cp: "cp = (m, p)" by (cases cp)
  show ?thesis
  proof (cases "m line")
    case False
    with assms cp show ?thesis by (simp add: scan_step_v1_def)
  next
    case True
    obtain sev risk where cl: "determine_severity_and_risk_v1 (lib_re_search lib)
        (pattern_manager sc) path line p = (sev, risk)"
      by (cases "determine_severity_and_risk_v1 (lib_re_search lib) (pattern_manager sc) path line p")
    define f where "f = escalate_v1 h t
        \<lparr>file_path = path, line_number = i, line_content = strip line,
         pattern = p, severity = sev, risk_type = risk, description = [],
         is_gitignored = (h \<or> (is_git_repo sc \<and> is_file_gitignored w path)),
         in_git_history = h, is_still_tracked = False\<rparr>"
    have ff: "file_path f = path" "line_number f = i" "\<not> h \<or> \<not> t \<or> severity f = HIGH"
      unfolding f_def using escalate_v1_fields(4)[of h t] by (simp_all add: escalate_v1_fields(1,2))
    have res: "scan_step_v1 lib sc w path h t i line fs cp =
       (case is_acceptable_finding (lib_re_match lib) (acceptable_findings sc) f of
          Inl e \<Rightarrow> (fs, Some e)
        | Inr acceptable \<Rightarrow>
            if acceptable then (fs, None)
            else if high_only sc \<and> severity f \<noteq> HIGH then (fs, None)
            else (fs @ [f], None))"
      by (simp only: scan_step_v1_def cp prod.case True if_True cl Let_def f_def)
    have "set (fst (scan_step_v1 lib sc w path h t i line fs cp)) \<subseteq> insert f (set fs)"
    proof (cases "is_acceptable_finding (lib_re_match lib) (acceptable_findings sc) f")
      case (Inl e)
      have "fst (scan_step_v1 lib sc w path h t i line fs cp) = fs"
        by (simp only: res Inl sum.case fst_conv)
      then show ?thesis by auto
    next
      case (Inr acceptable)
      have "fst (scan_step_v1 lib sc w path h t i line fs cp) = fs \<or>
            fst (scan_step_v1 lib sc w path h t i line fs cp) = fs @ [f]"
        by (simp only: res Inr sum.case) (simp split: if_splits)
      then show ?thesis by auto
    qed
    with assms ff show ?thesis by auto
  qed
qed

lemma scan_line_v1_made:
  assumes "g \<in> set (fst (scan_line_v1 lib sc w path h t fs (i, line)))"
  shows "g \<in> set fs \<or> (\<not> should_exclude (pattern_manager sc) line \<and> file_path g = path \<and>
           line_number g = i \<and> (\<not> h \<or> \<not> t \<or> severity g = HIGH))"
proof (cases "should_exclude (pattern_manager sc) line")
  case True
  with assms show ?thesis by (simp add: scan_line_v1_def)
next
  case False
  let ?all = "compiled_patterns (pattern_manager sc) @ compiled_overrides (pattern_manager sc) @
              compiled_config_patterns (pattern_manager sc)"
  let ?P = "\<lambda>s. \<forall>g \<in> set s. g \<in> set fs \<or>
      (file_path g = path \<and> line_number g = i \<and> (\<not> h \<or> \<not> t \<or> severity g = HIGH))"
  have "?P (fst (for_each_st (scan_step_v1 lib sc w path h t i line) fs ?all))"
  proof (rule for_each_st_inv)
    show "?P fs" by simp
  next
    fix s x assume s: "?P s" and "x \<in> set ?all"
    show "?P (fst (scan_step_v1 lib sc w path h t i line s x))"
    proof
      fix g assume "g \<in> set (fst (scan_step_v1 lib sc w path h t i line s x))"
      from scan_step_v1_made[OF this] s
      show "g \<in> set fs \<or>
        (file_path g = path \<and> line_number g = i \<and> (\<not> h \<or> \<not> t \<or> severity g = HIGH))"
        by blast
    qed
  qed
  with assms False show ?thesis by (simp add: scan_line_v1_def Let_def)
qed

lemma scan_lines_v1_made:
  assumes "g \<in> set (scan_lines_v1 lib sc w path h t fs lines)"
  shows "g \<in> set fs \<or> (\<exists>i line. (i, line) \<in> set (enumerate1 lines) \<and>
           \<not> should_exclude (pattern_manager sc) line \<and> file_path g = path \<and>
           line_number g = i \<and> (\<not> h \<or> \<not> t \<or> severity g = HIGH))"
proof -
  let ?Q = "\<lambda>g. g \<in> set fs \<or> (\<exists>i line. (i, line) \<in> set (enumerate1 lines) \<and>
           \<not> should_exclude (pattern_manager sc) line \<and> file_path g = path \<and>
           line_number g = i \<and> (\<not> h \<or> \<not> t \<or> severity g = HIGH))"
  let ?P = "\<lambda>s. \<forall>g \<in> set s. ?Q g"
  have "?P (fst (for_each_st (scan_line_v1 lib sc w path h t) fs (enumerate1 lines)))"
  proof (rule for_each_st_inv)
    show "?P fs" by simp
  next
    fix s x assume s: "?P s" and x: "x \<in> set (enumerate1 lines)"
    obtain i line where il: "x = (i, line)" by (cases x)
    show "?P (fst (scan_line_v1 lib sc w path h t s x))"
    proof
      fix g assume "g \<in> set (fst (scan_line_v1 lib sc w path h t s x))"
      then have "g \<in> set (fst (scan_line_v1 lib sc w path h t s (i, line)))" using il by simp
      from scan_line_v1_made[OF this] s x il show "?Q g" by blast
    qed
  qed
  with assms show ?thesis unfolding scan_lines_v1_def by blast
qed

text \<open>
  Claim C7. A line on which an exclusion matcher fires yields no finding: no finding of
  \<^verbatim>\<open>scan_file\<close> (secrets_scanner2.py) and none of the scanning loop of
  secrets_scanner.py carries the number of such a line, whatever primary, override or
  configuration patterns match it.
\<close>

theorem excluded_line_yields_no_finding:
  assumes "(i, line) \<in> set (enumerate1 lines)"
    and "should_exclude_line (pattern_manager sc) line"
  shows "i \<notin> line_number ` set (scan_lines lib sc path lines) \<and>
         i \<notin> line_number ` set (scan_lines_v1 lib sc w path h t [] lines)"
proof -
  have v2: "i \<notin> line_number ` set (scan_lines lib sc path lines)"
  proof
    assume "i \<in> line_number ` set (scan_lines lib sc path lines)"
    then obtain g where g: "g \<in> set (scan_lines lib sc path lines)" "line_number g = i" by auto
    from scan_lines_made[OF g(1)] obtain j l where
      jl: "(j, l) \<in> set (enumerate1 lines)" "\<not> should_exclude_line (pattern_manager sc) l"
        "made_by path j (active_patterns lib sc path) l g" by blast
    from jl(3) g(2) have "j = i" by (simp add: made_by_def)
    with jl(1) have "(i, l) \<in> set (enumerate1 lines)" by simp
    from enumerate1_keys[OF this assms(1)] have "l = line" .
    with jl(2) assms(2) show False by simp
  qed
  have v1: "i \<notin> line_number ` set (scan_lines_v1 lib sc w path h t [] lines)"
  proof
    assume "i \<in> line_number ` set (scan_lines_v1 lib sc w path h t [] lines)"
    then obtain g where g: "g \<in> set (scan_lines_v1 lib sc w path h t [] lines)" "line_number g = i"
      by auto
    from scan_lines_v1_made[OF g(1)]
    have "\<exists>j l. (j, l) \<in> set (enumerate1 lines) \<and>
           \<not> should_exclude (pattern_manager sc) l \<and> file_path g = path \<and>
           line_number g = j \<and> (\<not> h \<or> \<not> t \<or> severity g = HIGH)" by simp
    then obtain j l where
      jl: "(j, l) \<in> set (enumerate1 lines)" "\<not> should_exclude (pattern_manager sc) l"
        "line_number g = j" by blast
    from jl(3) g(2) have "j = i" by simp
    with jl(1) have "(i, l) \<in> set (enumerate1 lines)" by simp
    from enumerate1_keys[OF this assms(1)] have "l = line" .
    with jl(2) assms(2) show False by (simp add: should_exclude_def should_exclude_line_def)
  qed
  from v2 v1 show ?thesis by simp
qed

lemma scan_lines_patterns_non_config:
  assumes "\<not> is_config_file (lib_fnmatch lib) (pattern_config sc) path"
    and "g \<in> set (scan_lines lib sc path lines)"
  shows "pattern g \<in> snd ` set (compiled_overrides (pattern_manager sc)) \<union>
                     snd ` set (compiled_patterns (pattern_manager sc))"
proof -
  from scan_lines_made[OF assms(2)] obtain i l where
    "made_by path i (active_patterns lib sc path) l g" by blast
  with assms(1) show ?thesis
    by (force simp: made_by_def active_patterns_def list_ex_iff)
qed


lemma example_exclusion:
  "(1, ''# password = x'') \<in> set (enumerate1 [''# password = x'', ''password = hunter2''])"
  "should_exclude_line (pattern_manager example_scanner) ''# password = x''"
  by (simp_all add: enumerate1_def example_scanner_def should_exclude_line_def lower_def lower_char_def)

theorem excluded_line_yields_no_finding_witness:
  "(1, ''# password = x'') \<in> set (enumerate1 [''# password = x'', ''password = hunter2'']) \<and>
   should_exclude_line (pattern_manager example_scanner) ''# password = x'' \<and>
   1 \<notin> line_number ` set (scan_lines example_lib example_scanner ''app.py''
                                 [''# password = x'', ''password = hunter2'']) \<and>
   1 \<notin> line_number ` set (scan_lines_v1 example_lib example_scanner example_world ''app.py''
                                 False False [] [''# password = x'', ''password = hunter2''])"
  using example_exclusion
    excluded_line_yields_no_finding[OF example_exclusion, of example_lib "''app.py''" example_world
      False False]
  by blast

subsection \<open>Fingerprints determine the file and the line\<close>







subsection \<open>The duplicate removal of secrets_scanner.py keeps the first finding\<close>



subsection \<open>Streams in which the first finding of a fingerprint is a most severe one\<close>






subsection \<open>The severities in the stream of the scanning loop of secrets_scanner.py\<close>









subsection \<open>The survivors of the duplicate removal\<close>




subsection \<open>The scanning loop of secrets_scanner.py without an allowlist\<close>

lemma scan_step_v1_open:
  assumes "acceptable_findings sc = []" and "\<not> high_only sc"
  shows "snd (scan_step_v1 lib sc w path h t i line fs (m, p)) = None \<and>
         set fs \<subseteq> set (fst (scan_step_v1 lib sc w path h t i line fs (m, p))) \<and>
         (\<not> m line \<or> p \<in> pattern ` set (fst (scan_step_v1 lib sc w path h t i line fs (m, p))))"
proof (cases "m line")
  case False
  then show ?thesis by (simp add: scan_step_v1_def)
next
  case True
  obtain sev risk where cl: "determine_severity_and_risk_v1 (lib_re_search lib)
      (pattern_manager sc) path line p = (sev, risk)"
    by (cases "determine_severity_and_risk_v1 (lib_re_search lib) (pattern_manager sc) path line p")
  define f where "f = escalate_v1 h t
      \<lparr>file_path = path, line_number = i, line_content = strip line,
       pattern = p, severity = sev, risk_type = risk, description = [],
       is_gitignored = (h \<or> (is_git_repo sc \<and> is_file_gitignored w path)),
       in_git_history = h, is_still_tracked = False\<rparr>"
  have pf: "pattern f = p" unfolding f_def by (simp add: escalate_v1_fields(3))
  have res: "scan_step_v1 lib sc w path h t i line fs (m, p) =
     (case is_acceptable_finding (lib_re_match lib) (acceptable_findings sc) f of
        Inl e \<Rightarrow> (fs, Some e)
      | Inr acceptable \<Rightarrow>
          if acceptable then (fs, None)
          else if high_only sc \<and> severity f \<noteq> HIGH then (fs, None)
          else (fs @ [f], None))"
    by (simp only: scan_step_v1_def prod.case True if_True cl Let_def f_def)
  have "scan_step_v1 lib sc w path h t i line fs (m, p) = (fs @ [f], None)"
    unfolding res using assms by simp
  with pf show ?thesis by auto
qed

lemma scan_loop_v1_open:
  assumes "acceptable_findings sc = []" and "\<not> high_only sc"
  shows "set fs \<subseteq> set (fst (for_each_st (scan_step_v1 lib sc w path h t i line) fs grp)) \<and>
         (\<forall>(m, p) \<in> set grp. \<not> m line \<or>
            p \<in> pattern ` set (fst (for_each_st (scan_step_v1 lib sc w path h t i line) fs grp)))"
proof (induction grp arbitrary: fs)
  case Nil
  show ?case by simp
next
  case (Cons cp grp)
  obtain m p where cp: "cp = (m, p)" by (cases cp)
  obtain fs1 r where sr: "scan_step_v1 lib sc w path h t i line fs (m, p) = (fs1, r)"
    by (cases "scan_step_v1 lib sc w path h t i line fs (m, p)")
  from scan_step_v1_open[OF assms, of lib w path h t i line fs m p] sr
  have r: "r = None" and sub: "set fs \<subseteq> set fs1" and hit: "\<not> m line \<or> p \<in> pattern ` set fs1"
    by simp_all
  let ?out = "fst (for_each_st (scan_step_v1 lib sc w path h t i line) fs1 grp)"
  have out: "fst (for_each_st (scan_step_v1 lib sc w path h t i line) fs (cp # grp)) = ?out"
    using sr r cp by simp
  from Cons.IH[of fs1] have ih1: "set fs1 \<subseteq> set ?out"
    and ih2: "\<forall>(m, p) \<in> set grp. \<not> m line \<or> p \<in> pattern ` set ?out" by blast+
  have "set fs \<subseteq> set ?out" using sub ih1 by blast
  moreover have "\<not> m line \<or> p \<in> pattern ` set ?out" using hit ih1 by blast
  ultimately show ?case unfolding out using ih2 cp by simp
qed


subsection \<open>Configuration patterns and the kind of file\<close>

text \<open>
  In secrets_scanner2.py a file that is not a configuration file only yields findings of
  override and primary patterns (\<open>scan_lines_patterns_non_config\<close> above).

  Claim C3 asks that configuration patterns be applied to configuration files only. The
  scanning loop of secrets_scanner.py joins the three pattern lists and applies them to
  every file: with an empty allowlist and without the high-only flag, every
  configuration pattern that fires on a line that is not excluded yields a finding,
  whatever the path.
\<close>

theorem scan_v1_config_patterns_on_any_file:
  assumes "acceptable_findings sc = []" and "\<not> high_only sc"
    and "\<not> should_exclude (pattern_manager sc) line"
    and "(m, p) \<in> set (compiled_config_patterns (pattern_manager sc))" and "m line"
  shows "p \<in> pattern ` set (scan_lines_v1 lib sc w path h t [] [line])"
proof -
  let ?all = "compiled_patterns (pattern_manager sc) @ compiled_overrides (pattern_manager sc) @
              compiled_config_patterns (pattern_manager sc)"
  let ?loop = "for_each_st (scan_step_v1 lib sc w path h t 1 line) [] ?all"
  have mem: "(m, p) \<in> set ?all" using assms(4) by simp
  from scan_loop_v1_open[OF assms(1,2), of "[]" lib w path h t 1 line ?all] mem assms(5)
  have hit: "p \<in> pattern ` set (fst ?loop)" by blast
  have line1: "scan_line_v1 lib sc w path h t [] (1, line) = ?loop"
    using assms(3) by (simp add: scan_line_v1_def Let_def)
  obtain out r where lr: "?loop = (out, r)" by (cases ?loop)
  have "scan_lines_v1 lib sc w path h t [] [line] = out"
    unfolding scan_lines_v1_def enumerate1_def using line1 lr by (cases r) simp_all
  with hit lr show ?thesis by simp
qed

theorem scan_v1_config_patterns_on_any_file_witness:
  "acceptable_findings example_scanner = [] \<and> \<not> high_only example_scanner \<and>
   \<not> should_exclude (pattern_manager example_scanner) ''key=abc'' \<and>
   \<not> is_config_file_v1 ''app.py'' \<and>
   \<not> is_config_file (lib_fnmatch example_lib) (pattern_config example_scanner) ''app.py'' \<and>
   ''key='' \<in> pattern ` set (scan_lines_v1 example_lib example_scanner example_world ''app.py''
                              False False [] [''key=abc'']) \<and>
   ''key='' \<notin> pattern ` set (scan_lines example_lib example_scanner ''app.py'' [''key=abc''])"
proof -
  have a: "acceptable_findings example_scanner = []" "\<not> high_only example_scanner"
    by (simp_all add: example_scanner_def)
  have b: "\<not> should_exclude (pattern_manager example_scanner) ''key=abc''"
    by (simp add: example_scanner_def should_exclude_def lower_def lower_char_def)
  have c: "(\<lambda>s. str_in ''key='' (lower s), ''key='') \<in>
             set (compiled_config_patterns (pattern_manager example_scanner))"
    by (simp add: example_scanner_def)
  have d: "str_in ''key='' (lower ''key=abc'')" by (simp add: lower_def lower_char_def)
  have e: "\<not> is_config_file_v1 ''app.py''" by code_simp
  have f: "\<not> is_config_file (lib_fnmatch example_lib) (pattern_config example_scanner) ''app.py''"
    by code_simp
  have g: "''key='' \<notin> pattern ` set (scan_lines example_lib example_scanner ''app.py'' [''key=abc''])"
  proof
    assume "''key='' \<in> pattern ` set (scan_lines example_lib example_scanner ''app.py'' [''key=abc''])"
    then obtain x where x: "x \<in> set (scan_lines example_lib example_scanner ''app.py'' [''key=abc''])"
      "pattern x = ''key=''" by auto
    from scan_lines_patterns_non_config[OF f x(1)] x(2) show False
      by (simp add: example_scanner_def)
  qed
  from scan_v1_config_patterns_on_any_file[OF a b c, of example_lib example_world "''app.py''" False False] d
  have "''key='' \<in> pattern ` set (scan_lines_v1 example_lib example_scanner example_world ''app.py''
                              False False [] [''key=abc''])" by simp
  with a b e f g show ?thesis by blast
qed

subsection \<open>Findings of files in the git history\<close>

lemma remove_duplicates_subset: "set (remove_duplicates xs) \<subseteq> set xs"
proof
  fix s assume "s \<in> set (remove_duplicates xs)"
  with remove_duplicates_keeps_best[of xs]
  have "spec_survivor (filter (\<lambda>g. fingerprint g = fingerprint s) xs) = Some s" by blast
  from spec_survivor_mem[OF this] show "s \<in> set xs" by simp
qed

lemma scan_file_untracked: "g \<in> set (scan_file lib sc w path) \<Longrightarrow> \<not> is_still_tracked g"
proof -
  assume a: "g \<in> set (scan_file lib sc w path)"
  show ?thesis
  proof (cases "open_file w path")
    case None
    with a show ?thesis by (simp add: scan_file_def)
  next
    case (Some lines)
    with a have "g \<in> set (scan_lines lib sc path lines)" by (simp add: scan_file_def)
    from scan_lines_made[OF this] show ?thesis by blast
  qed
qed

lemma detect_step_untracked:
  "\<forall>g \<in> set fs. \<not> is_still_tracked g \<Longrightarrow>
   \<forall>g \<in> set (detect_step lib sc w fs secret). \<not> is_still_tracked g"
proof -
  assume a: "\<forall>g \<in> set fs. \<not> is_still_tracked g"
  obtain filename n ty where s: "secret = (filename, n, ty)" by (cases secret)
  have nf: "\<not> is_still_tracked (detect_secret_finding sc w secret)"
    unfolding s by (simp add: detect_secret_finding_def Let_def)
  have "set (detect_step lib sc w fs secret) \<subseteq> insert (detect_secret_finding sc w secret) (set fs)"
    unfolding detect_step_def Let_def by (auto split: sum.splits)
  with a nf show ?thesis by blast
qed

lemma detect_scan_untracked:
  "g \<in> set (run_detect_secrets_scan lib sc w) \<Longrightarrow> \<not> is_still_tracked g"
proof -
  have "\<forall>g \<in> set (foldl (detect_step lib sc w) [] secrets). \<not> is_still_tracked g" for secrets
  proof (induction secrets rule: rev_induct)
    case Nil
    show ?case by simp
  next
    case (snoc x xs)
    then show ?case using detect_step_untracked[of "foldl (detect_step lib sc w) [] xs" lib sc w x]
      by simp
  qed
  then show "g \<in> set (run_detect_secrets_scan lib sc w) \<Longrightarrow> \<not> is_still_tracked g"
    by (auto simp: run_detect_secrets_scan_def split: if_splits)
qed

lemma blob_step_untracked:
  assumes "\<forall>g \<in> set fs. \<not> is_still_tracked g"
  shows "\<forall>g \<in> set (fst (blob_step lib sc path i line fs cp)). \<not> is_still_tracked g"
proof -
  obtain m p where cp: "cp = (m, p)" by (cases cp)
  define f where "f = \<lparr>file_path = ''[Git blob] '' @ path, line_number = i,
      line_content = strip line, pattern = p, severity = HIGH,
      risk_type = determine_risk_type line, description = ''Found in Git history blob'',
      is_gitignored = False, in_git_history = True, is_still_tracked = False\<rparr>"
  have nf: "\<not> is_still_tracked f" by (simp add: f_def)
  have "set (fst (blob_step lib sc path i line fs cp)) \<subseteq> insert f (set fs)"
    unfolding blob_step_def cp f_def Let_def by (auto split: sum.splits if_splits)
  with assms nf show ?thesis by blast
qed

lemma git_objects_untracked: "g \<in> set (scan_git_objects lib sc w) \<Longrightarrow> \<not> is_still_tracked g"
proof -
  let ?P = "\<lambda>s. \<forall>g \<in> set s. \<not> is_still_tracked g"
  have line: "?P (fst (blob_line lib sc path s il))" if "?P s" for path s il
  proof (cases il)
    case (Pair i line)
    show ?thesis
    proof (cases "should_exclude_line (pattern_manager sc) line")
      case True
      with that Pair show ?thesis by (simp add: blob_line_def)
    next
      case False
      have "?P (fst (for_each_st (blob_step lib sc path i line) s
                  (compiled_patterns (pattern_manager sc))))"
        by (rule for_each_st_inv[where P = ?P, OF that]) (rule blob_step_untracked)
      with False Pair show ?thesis by (simp add: blob_line_def)
    qed
  qed
  have blob: "?P (fst (blob_scan lib sc s b))" if "?P s" for s b
  proof (cases b)
    case (Pair path content)
    have "?P (fst (for_each_st (blob_line lib sc path) s (enumerate1 content)))"
      by (rule for_each_st_inv[where P = ?P, OF that]) (rule line)
    with Pair show ?thesis by (simp add: blob_scan_def)
  qed
  have all: "?P (fst (for_each_st (blob_scan lib sc) [] (sampled_blobs w)))"
    by (rule for_each_st_inv[where P = ?P]) (simp, rule blob)
  assume a: "g \<in> set (scan_git_objects lib sc w)"
  obtain out r where lr: "for_each_st (blob_scan lib sc) [] (sampled_blobs w) = (out, r)"
    by (cases "for_each_st (blob_scan lib sc) [] (sampled_blobs w)")
  from all lr have out: "\<forall>g \<in> set out. \<not> is_still_tracked g" by simp
  from a lr have "g \<in> set out"
    by (cases r; cases "is_git_repo sc") (simp_all add: scan_git_objects_def)
  with out show ?thesis by blast
qed

lemma tag_historical_flags:
  "is_still_tracked (tag_historical t f) = t" "in_git_history (tag_historical t f)"
  "\<not> t \<or> severity (tag_historical t f) = HIGH"
  "severity f \<noteq> HIGH \<or> severity (tag_historical t f) = HIGH"
  "severity_rank (severity f) \<le> severity_rank (severity (tag_historical t f))"
  by (cases "severity f"; simp add: tag_historical_def Let_def severity_rank_def)+

lemma escalate_v1_monotone:
  "\<not> h \<or> \<not> t \<or> severity (escalate_v1 h t f) = HIGH"
  "severity f \<noteq> HIGH \<or> severity (escalate_v1 h t f) = HIGH"
  "severity_rank (severity f) \<le> severity_rank (severity (escalate_v1 h t f))"
  by (cases "severity f"; simp add: escalate_v1_def severity_rank_def)+

lemma historical_files_tracked_high:
  "g \<in> set (scan_historical_files lib sc w) \<Longrightarrow> \<not> is_still_tracked g \<or> severity g = HIGH"
proof -
  assume a: "g \<in> set (scan_historical_files lib sc w)"
  have hf: "\<not> is_still_tracked x \<or> severity x = HIGH"
    if "x \<in> set (historical_file_findings lib sc w hf)" for x hf
  proof (cases hf)
    case (Pair path t)
    with that obtain f where "x = tag_historical t f"
      by (auto simp: historical_file_findings_def split: if_splits)
    then show ?thesis using tag_historical_flags(1,3)[of t f] by auto
  qed
  from a consider hf where "hf \<in> set (historical_files w)"
      "g \<in> set (historical_file_findings lib sc w hf)"
    | "g \<in> set (scan_git_objects lib sc w)"
    by (auto simp: scan_historical_files_def split: if_splits)
  then show ?thesis
  proof cases
    case 1
    then show ?thesis using hf by blast
  next
    case 2
    then show ?thesis using git_objects_untracked by blast
  qed
qed

lemma scan_tracked_high: "g \<in> set (scan lib sc w) \<Longrightarrow> \<not> is_still_tracked g \<or> severity g = HIGH"
proof -
  assume a: "g \<in> set (scan lib sc w)"
  let ?files = "collect_files_to_scan lib sc w"
  let ?all = "concat (map (scan_file lib sc w) ?files) @
              (if use_detect_secrets sc then run_detect_secrets_scan lib sc w else []) @
              (if check_git_history sc then scan_historical_files lib sc w else [])"
  from a have "g \<in> set (remove_duplicates ?all)"
    by (cases "?files = []") (simp_all add: scan_def Let_def)
  with remove_duplicates_subset have "g \<in> set ?all" by blast
  then consider path where "g \<in> set (scan_file lib sc w path)"
    | "g \<in> set (run_detect_secrets_scan lib sc w)"
    | "g \<in> set (scan_historical_files lib sc w)"
    by (auto split: if_splits)
  then show ?thesis
  proof cases
    case 1
    then show ?thesis using scan_file_untracked by blast
  next
    case 2
    then show ?thesis using detect_scan_untracked by blast
  next
    case 3
    then show ?thesis using historical_files_tracked_high by blast
  qed
qed


text \<open>
  Claim C6. In the output of \<^verbatim>\<open>scan\<close> (secrets_scanner2.py) every finding flagged as in
  the git history and still tracked has severity HIGH. The raise of the severity never
  lowers it, leaves HIGH at HIGH and ends at HIGH for a tracked historical file: so for
  the tagging step of \<^verbatim>\<open>scan_historical_files\<close> and for the step of secrets_scanner.py,
  whose findings of a historical file that is still tracked are all HIGH.
\<close>

theorem tracked_history_findings_are_high:
  "(\<forall>g \<in> set (scan lib sc w). in_git_history g \<and> is_still_tracked g \<longrightarrow> severity g = HIGH) \<and>
   (t \<longrightarrow> severity (tag_historical t f) = HIGH) \<and>
   (severity f = HIGH \<longrightarrow> severity (tag_historical t f) = HIGH) \<and>
   severity_rank (severity f) \<le> severity_rank (severity (tag_historical t f)) \<and>
   (h \<and> t \<longrightarrow> severity (escalate_v1 h t f) = HIGH) \<and>
   (severity f = HIGH \<longrightarrow> severity (escalate_v1 h t f) = HIGH) \<and>
   severity_rank (severity f) \<le> severity_rank (severity (escalate_v1 h t f)) \<and>
   (\<forall>g \<in> set (scan_lines_v1 lib sc w path True True [] lines). severity g = HIGH)"
proof -
  have a: "\<forall>g \<in> set (scan lib sc w). in_git_history g \<and> is_still_tracked g \<longrightarrow> severity g = HIGH"
    using scan_tracked_high[of _ lib sc w] by blast
  have b: "\<forall>g \<in> set (scan_lines_v1 lib sc w path True True [] lines). severity g = HIGH"
  proof
    fix g assume "g \<in> set (scan_lines_v1 lib sc w path True True [] lines)"
    from scan_lines_v1_made[OF this] show "severity g = HIGH" by auto
  qed
  from a b tag_historical_flags(3,4,5)[where t = t and f = f]
    escalate_v1_monotone[where h = h and t = t and f = f]
  show ?thesis by blast
qed

theorem tracked_history_findings_are_high_witness:
  "scan example_lib example_scanner example_world \<noteq> [] \<and>
   in_git_history (last (scan example_lib example_scanner example_world)) \<and>
   is_still_tracked (last (scan example_lib example_scanner example_world)) \<and>
   severity (last (scan example_lib example_scanner example_world)) = HIGH \<and>
   severity (tag_historical True
     \<lparr>file_path = ''old.py'', line_number = 2, line_content = ''password = hunter2'',
      pattern = ''password'', severity = LOW, risk_type = HARDCODED_SECRET, description = [],
      is_gitignored = False, in_git_history = False, is_still_tracked = False\<rparr>) = HIGH \<and>
   severity (escalate_v1 True True
     \<lparr>file_path = ''old.py'', line_number = 2, line_content = ''password = hunter2'',
      pattern = ''password'', severity = LOW, risk_type = HARDCODED_SECRET, description = [],
      is_gitignored = False, in_git_history = False, is_still_tracked = False\<rparr>) = HIGH"
proof -
  let ?S = "scan example_lib example_scanner example_world"
  have ev: "?S \<noteq> [] \<and> in_git_history (last ?S) \<and> is_still_tracked (last ?S)"
    by code_simp
  then have "last ?S \<in> set ?S" by simp
  with ev tracked_history_findings_are_high
    [where lib = example_lib and sc = example_scanner and w = example_world and t = True
       and h = True
       and f = "\<lparr>file_path = ''old.py'', line_number = 2, line_content = ''password = hunter2'',
      pattern = ''password'', severity = LOW, risk_type = HARDCODED_SECRET, description = [],
      is_gitignored = False, in_git_history = False, is_still_tracked = False\<rparr>"]
  show ?thesis by blast
qed

end
